theory Spec2Isabelle
  imports Main "HOL-Library.Word"
begin

unbundle bit_operations_syntax

section \<open>Machine model\<close>

text \<open>
  The generator \<^verbatim>\<open>scripts/gen_random.c\<close> works on \<^verbatim>\<open>uint32_t\<close> words and inspects
  them through a \<^verbatim>\<open>char *\<close>.  Two choices of the C implementation are visible to that
  code: the order of the four bytes of a word in memory and the signedness of plain
  \<^verbatim>\<open>char\<close>.  Both are kept as parameters, so that every result below holds on every
  platform.
\<close>

type_synonym u32 = "32 word"
type_synonym byte = "8 word"

record platform =
  big_endian :: bool
  char_signed :: bool

text \<open>The four bytes of a word, least significant first, and as they lie in memory.\<close>

definition word_bytes :: "u32 \<Rightarrow> byte list" where
  "word_bytes u = [ucast u, ucast (drop_bit 8 u), ucast (drop_bit 16 u), ucast (drop_bit 24 u)]"

definition mem_bytes :: "platform \<Rightarrow> u32 \<Rightarrow> byte list" where
  "mem_bytes pf u = (if big_endian pf then rev (word_bytes u) else word_bytes u)"

text \<open>The word that four bytes in memory denote (the inverse direction, used by \<^verbatim>\<open>read\<close>).\<close>

definition le_word :: "byte list \<Rightarrow> u32" where
  "le_word bs = ucast (bs ! 0) OR push_bit 8 (ucast (bs ! 1))
     OR push_bit 16 (ucast (bs ! 2)) OR push_bit 24 (ucast (bs ! 3))"

definition mem_word :: "platform \<Rightarrow> byte list \<Rightarrow> u32" where
  "mem_word pf bs = (if big_endian pf then le_word (rev bs) else le_word bs)"

text \<open>
  The value of a \<^verbatim>\<open>char\<close> object after the integer promotion that \<^verbatim>\<open>switch\<close>
  applies, and the value of a character constant written with an octal escape: the
  \<^verbatim>\<open>int\<close> that a \<^verbatim>\<open>char\<close> holding that byte converts to.
\<close>

definition char_to_int :: "platform \<Rightarrow> byte \<Rightarrow> int" where
  "char_to_int pf c = (if char_signed pf then sint c else uint c)"

definition octal_escape :: "nat \<Rightarrow> nat \<Rightarrow> nat \<Rightarrow> byte" where
  "octal_escape a b c = of_nat (a * 8 ^ 2 + b * 8 + c)"

section \<open>The acceptance filter\<close>

subsection \<open>\<^verbatim>\<open>hamming\<close>: Kernighan's method\<close>

text \<open>
  \<^verbatim>\<open>for (h = 0 ; x ; h++) x &= (x-1) ;\<close>
  One pass through the loop body maps the pair \<open>(x, h)\<close> to \<open>(x & (x - 1), h + 1)\<close>.
\<close>

definition hamming_body :: "u32 \<times> int \<Rightarrow> u32 \<times> int" where
  "hamming_body s = (fst s AND (fst s - 1), snd s + 1)"

lemma clear_lowest_less: "x \<noteq> 0 \<Longrightarrow> unat (x AND (x - 1)) < unat (x::u32)"
proof -
  assume nz: "x \<noteq> 0"
  have "x AND (x - 1) \<le> x - 1"
    by (rule word_and_le1)
  moreover have "x - 1 < x"
    using nz by (simp add: word_less_nat_alt unat_minus_one unat_gt_0)
  ultimately have "x AND (x - 1) < x"
    by simp
  then show ?thesis
    by (simp add: word_less_nat_alt)
qed

function hamming_loop :: "u32 \<times> int \<Rightarrow> int" where
  "hamming_loop s = (if fst s \<noteq> 0 then hamming_loop (hamming_body s) else snd s)"
  by pat_completeness auto
termination
  by (relation "measure (\<lambda>s. unat (fst s))") (auto simp: hamming_body_def clear_lowest_less)

declare hamming_loop.simps [simp del]

definition hamming :: "u32 \<Rightarrow> int" where
  "hamming x = hamming_loop (x, 0)"

text \<open>The population count as the specification words it: the number of set bits.\<close>

definition popcount :: "u32 \<Rightarrow> nat" where
  "popcount x = length (filter (bit x) [0..<32])"

subsection \<open>\<^verbatim>\<open>accept\<close>\<close>

text \<open>\<^verbatim>\<open>#define MIN 8\<close> and \<^verbatim>\<open>#define MAX (32-MIN)\<close>.\<close>

definition MIN_weight :: int where
  "MIN_weight = 8"

definition MAX_weight :: int where
  "MAX_weight = 32 - MIN_weight"

text \<open>
  The byte loop of \<^verbatim>\<open>accept\<close>: \<open>i\<close> counts the bytes already inspected, \<^verbatim>\<open>*p\<close> is
  byte \<open>i\<close> of the word in memory.  The two \<^verbatim>\<open>case\<close> labels are \<^verbatim>\<open>'\0'\<close> and
  \<^verbatim>\<open>'\255'\<close>, both octal escapes.
\<close>

function accept_loop :: "platform \<Rightarrow> u32 \<Rightarrow> nat \<Rightarrow> int" where
  "accept_loop pf u i =
     (if i < 4 then
        (if char_to_int pf (mem_bytes pf u ! i) = char_to_int pf (octal_escape 0 0 0)
            \<or> char_to_int pf (mem_bytes pf u ! i) = char_to_int pf (octal_escape 2 5 5)
         then 0
         else accept_loop pf u (i + 1))
      else 1)"
  by pat_completeness auto
termination
  by (relation "measure (\<lambda>(pf, u, i). 4 - i)") auto

declare accept_loop.simps [simp del]

definition accept :: "platform \<Rightarrow> u32 \<Rightarrow> int" where
  "accept pf u =
     (let h = hamming u in
      if h < MIN_weight \<or> h > MAX_weight then 0 else accept_loop pf u 0)"

section \<open>The environment: entropy source, allocator, output streams\<close>

text \<open>
  The program talks to its environment through \<^verbatim>\<open>open\<close>, \<^verbatim>\<open>calloc\<close>, \<^verbatim>\<open>read\<close>,
  \<^verbatim>\<open>printf\<close> and \<^verbatim>\<open>fprintf(stderr, ...)\<close>.  The environment is a record that is
  passed through the program:
  \<^item> \<open>open_result\<close> is what \<^verbatim>\<open>open("/dev/urandom", O_RDONLY)\<close> returns;
  \<^item> \<open>calloc_ok k\<close> tells whether the \<open>k\<close>-th call of \<^verbatim>\<open>calloc\<close> returns memory;
  \<^item> \<open>urandom k\<close> is what the device hands to the \<open>k\<close>-th call of \<^verbatim>\<open>read\<close>: an error,
    or the bytes it is ready to deliver, of which the call takes at most as many as it
    asked for (fewer bytes than asked for make a short read, no bytes an end of file);
  \<^item> \<open>stdout\<close> and \<open>stderr\<close> are the texts printed so far.
\<close>

datatype rd = RdErr | RdBytes "byte list"

record world =
  open_result :: int
  calloc_ok :: "nat \<Rightarrow> bool"
  ncalloc :: nat
  urandom :: "nat \<Rightarrow> rd"
  nread :: nat
  stdout :: string
  stderr :: string

definition printf_out :: "string \<Rightarrow> world \<Rightarrow> world" where
  "printf_out s w = w\<lparr>stdout := stdout w @ s\<rparr>"

definition printf_err :: "string \<Rightarrow> world \<Rightarrow> world" where
  "printf_err s w = w\<lparr>stderr := stderr w @ s\<rparr>"

text \<open>\<^verbatim>\<open>calloc\<close>: whether the call returned a non-null pointer.\<close>

definition sys_calloc :: "world \<Rightarrow> bool \<times> world" where
  "sys_calloc w = (calloc_ok w (ncalloc w), w\<lparr>ncalloc := ncalloc w + 1\<rparr>)"

text \<open>
  \<^verbatim>\<open>read(urandom, buf, n)\<close>: the return value (\<open>-1\<close> for an error, otherwise the number
  of bytes stored) and the bytes stored at the start of the buffer.
\<close>

definition sys_read :: "nat \<Rightarrow> world \<Rightarrow> (int \<times> byte list) \<times> world" where
  "sys_read n w =
     (case urandom w (nread w) of
        RdErr \<Rightarrow> ((- 1, []), w\<lparr>nread := nread w + 1\<rparr>)
      | RdBytes bs \<Rightarrow> ((int (length (take n bs)), take n bs), w\<lparr>nread := nread w + 1\<rparr>))"

text \<open>
  A buffer of \<^verbatim>\<open>u32\<close> is a list of words.  \<open>words_of\<close> reads a filled buffer as words;
  \<open>poke\<close> is the word at \<^verbatim>\<open>p\<close> after \<^verbatim>\<open>read\<close> stored the bytes \<open>bs\<close> (at most four)
  at \<^verbatim>\<open>(char *) p\<close>: the bytes that were not overwritten keep their value.
\<close>

fun words_of :: "platform \<Rightarrow> byte list \<Rightarrow> u32 list" where
  "words_of pf (a # b # c # d # rest) = mem_word pf [a, b, c, d] # words_of pf rest"
| "words_of pf _ = []"

definition poke :: "platform \<Rightarrow> u32 \<Rightarrow> byte list \<Rightarrow> u32" where
  "poke pf u bs = mem_word pf (bs @ drop (length bs) (mem_bytes pf u))"

section \<open>\<^verbatim>\<open>printf\<close> conversions\<close>

definition hex_digits :: string where
  "hex_digits = ''0123456789abcdef''"

definition digit_char :: "nat \<Rightarrow> char" where
  "digit_char d = hex_digits ! d"

text \<open>
  The digits of a non-negative number in base \<open>b\<close>, most significant first.  The numbers
  are integers, as the arguments of \<^verbatim>\<open>printf\<close> are.
\<close>

function radix_digits :: "int \<Rightarrow> int \<Rightarrow> string" where
  "radix_digits b n =
     (if b < 2 \<or> n < b then [digit_char (nat n)]
      else radix_digits b (n div b) @ [digit_char (nat (n mod b))])"
  by pat_completeness auto
termination
proof (relation "measure (\<lambda>(b, n). nat n)")
  show "wf (measure (\<lambda>(b, n). nat n))"
    by simp
next
  fix b n :: int
  assume "\<not> (b < 2 \<or> n < b)"
  then have "n div b < n"
    by (intro int_div_less_self) simp_all
  moreover from \<open>\<not> (b < 2 \<or> n < b)\<close> have "0 < n"
    by simp
  ultimately show "((b, n div b), (b, n)) \<in> measure (\<lambda>(b, n). nat n)"
    by simp
qed

declare radix_digits.simps [simp del]

text \<open>\<^verbatim>\<open>%d\<close> and \<^verbatim>\<open>%08x\<close>.\<close>

definition fmt_d :: "int \<Rightarrow> string" where
  "fmt_d k = (if k < 0 then ''-'' @ radix_digits 10 (- k) else radix_digits 10 k)"

definition fmt_08x :: "u32 \<Rightarrow> string" where
  "fmt_08x u =
     (let s = radix_digits 16 (uint u) in replicate (8 - length s) (CHR ''0'') @ s)"

section \<open>\<^verbatim>\<open>do_block\<close>\<close>

text \<open>
  \<^verbatim>\<open>while( !accept(*p) ) x = read( urandom, (char *) p, 4) ;\<close> with \<^verbatim>\<open>p = data + i\<close>.
  The loop has no bound, so the model is a partial function: \<open>None\<close> is the run that
  never leaves the loop.
\<close>

partial_function (option) retry ::
  "platform \<Rightarrow> nat \<Rightarrow> int \<Rightarrow> u32 list \<Rightarrow> world \<Rightarrow> (int \<times> u32 list \<times> world) option" where
  "retry pf i x data w =
     (if accept pf (data ! i) = 0 then
        (case sys_read 4 w of
           ((r, bs), w') \<Rightarrow> retry pf i r (data[i := poke pf (data ! i) bs]) w')
      else Some (x, data, w))"

declare retry.simps [code]

text \<open>
  \<^verbatim>\<open>for( i = 0, x = 1, p = data ; x && (i < nwords) ; i++, p++ )\<close> around the retry loop.
\<close>

function fix_words ::
  "platform \<Rightarrow> nat \<Rightarrow> nat \<Rightarrow> int \<Rightarrow> u32 list \<Rightarrow> world \<Rightarrow> (u32 list \<times> world) option" where
  "fix_words pf nwords i x data w =
     (if x \<noteq> 0 \<and> i < nwords then
        (case retry pf i x data w of
           None \<Rightarrow> None
         | Some (x', data', w') \<Rightarrow> fix_words pf nwords (i + 1) x' data' w')
      else Some (data, w))"
  by pat_completeness auto
termination
  by (relation "measure (\<lambda>(pf, nwords, i, x, data, w). nwords - i)") auto

declare fix_words.simps [simp del]

text \<open>\<^verbatim>\<open>#define PER_LINE 8\<close> and the loop that prints the array.\<close>

definition PER_LINE :: nat where
  "PER_LINE = 8"

function print_words :: "nat \<Rightarrow> u32 list \<Rightarrow> nat \<Rightarrow> world \<Rightarrow> world" where
  "print_words nwords data i w =
     (if i < nwords then
        (let w1 = printf_out (''0x'' @ fmt_08x (data ! i)) w;
             w2 = (if i = nwords - 1 then printf_out '' } ;\<newline>'' w1
                   else if i mod PER_LINE = PER_LINE - 1 then printf_out '',\<newline>'' w1
                   else printf_out '', '' w1)
         in print_words nwords data (i + 1) w2)
      else w)"
  by pat_completeness auto
termination
  by (relation "measure (\<lambda>(nwords, data, i, w). nwords - i)") auto

declare print_words.simps [simp del]

text \<open>
  A run of \<^verbatim>\<open>do_block\<close> either never returns (\<open>None\<close>), or ends the process through
  \<^verbatim>\<open>exit\<close> (\<open>Inl\<close>, with the exit status), or returns to its caller (\<open>Inr\<close>).
  \<open>nwords\<close> is a natural number: \<^verbatim>\<open>main\<close> passes positive constants only.
\<close>

definition do_block :: "platform \<Rightarrow> nat \<Rightarrow> string \<Rightarrow> world \<Rightarrow> (int \<times> world + world) option" where
  "do_block pf nwords name w =
     (let nbytes = 4 * nwords;
          (got, w1) = sys_calloc w
      in if \<not> got then
           Some (Inl (1, printf_err ''gen_random_init: calloc() failed, cannot continue\<newline>'' w1))
         else
           (let ((x, bs), w2) = sys_read nbytes w1
            in if x \<noteq> int nbytes then
                 Some (Inl (1, printf_err ''gen_random_int: read() failed, cannot contiue\<newline>'' w2))
               else
                 (case fix_words pf nwords 0 1 (words_of pf bs) w2 of
                    None \<Rightarrow> None
                  | Some (data, w3) \<Rightarrow>
                      Some (Inr (printf_out ''\<newline>''
                        (print_words nwords data 0
                          (printf_out (''static u32 '' @ name @ ''[] = {\<newline>'') w3)))))))"

section \<open>\<^verbatim>\<open>main\<close>\<close>

text \<open>The configuration constants, as the preprocessor expands them.\<close>

definition INPUT_POOL_SHIFT :: int where
  "INPUT_POOL_SHIFT = 12"

definition INPUT_POOL_WORDS :: int where
  "INPUT_POOL_WORDS = push_bit (nat (INPUT_POOL_SHIFT - 5)) 1"

definition OUTPUT_POOL_SHIFT :: int where
  "OUTPUT_POOL_SHIFT = 10"

definition OUTPUT_POOL_WORDS :: int where
  "OUTPUT_POOL_WORDS = push_bit (nat (OUTPUT_POOL_SHIFT - 5)) 1"

definition TOTAL_POOL_WORDS :: int where
  "TOTAL_POOL_WORDS = INPUT_POOL_WORDS + 2 * OUTPUT_POOL_WORDS"

definition ARRAY_ROWS :: int where
  "ARRAY_ROWS = 8"

definition ARRAY_WORDS :: int where
  "ARRAY_WORDS = 4 * ARRAY_ROWS"

text \<open>The four \<^verbatim>\<open>printf\<close> calls between \<^verbatim>\<open>open\<close> and the first \<^verbatim>\<open>do_block\<close>.\<close>

definition preamble :: "world \<Rightarrow> world" where
  "preamble w =
     (let w1 = printf_out ''/* File generated by gen_random_init.c */\<newline>\<newline>'' w;
          w2 = printf_out (''#define INPUT_POOL_WORDS '' @ fmt_d INPUT_POOL_WORDS @ ''\<newline>'') w1;
          w3 = printf_out (''#define OUTPUT_POOL_WORDS '' @ fmt_d OUTPUT_POOL_WORDS @ ''\<newline>'') w2
      in printf_out (''#define INPUT_POOL_SHIFT '' @ fmt_d INPUT_POOL_SHIFT @ ''\<newline>\<newline>'') w3)"

text \<open>
  The rest of \<^verbatim>\<open>main\<close>: the pools, and under \<^verbatim>\<open>CONFIG_RANDOM_GCM\<close> (the parameter
  \<open>gcm\<close>) the constants.  \<^verbatim>\<open>main\<close> always ends through \<^verbatim>\<open>exit\<close>, so a run is \<open>None\<close>
  or the exit status with the final environment.
\<close>

definition gen_blocks :: "platform \<Rightarrow> bool \<Rightarrow> world \<Rightarrow> (int \<times> world) option" where
  "gen_blocks pf gcm w =
     (case do_block pf (nat TOTAL_POOL_WORDS) ''pools'' w of
        None \<Rightarrow> None
      | Some (Inl e) \<Rightarrow> Some e
      | Some (Inr w1) \<Rightarrow>
          if gcm then
            (let w2 = printf_out (''#define ARRAY_WORDS '' @ fmt_d ARRAY_WORDS @ ''\<newline>\<newline>'') w1
             in case do_block pf (nat (ARRAY_WORDS + 8)) ''constants'' w2 of
                  None \<Rightarrow> None
                | Some (Inl e) \<Rightarrow> Some e
                | Some (Inr w3) \<Rightarrow>
                    Some (0, printf_out ''static u32 *counter = constants + ARRAY_WORDS ;\<newline>'' w3))
          else Some (0, w1))"

definition main :: "platform \<Rightarrow> bool \<Rightarrow> world \<Rightarrow> (int \<times> world) option" where
  "main pf gcm w =
     (if open_result w = - 1 then
        Some (1, printf_err ''gen_random_init: no /dev/urandom, cannot continue\<newline>'' w)
      else gen_blocks pf gcm (preamble w))"

section \<open>Notions of the specification\<close>

text \<open>
  A response of the device that supplies a 4-byte value passing the filter, and one that
  makes \<^verbatim>\<open>read\<close> return fewer than \<open>n\<close> bytes (or fail).
\<close>

definition supplies_ok :: "platform \<Rightarrow> rd \<Rightarrow> bool" where
  "supplies_ok pf r =
     (case r of RdErr \<Rightarrow> False
      | RdBytes bs \<Rightarrow> 4 \<le> length bs \<and> accept pf (mem_word pf (take 4 bs)) = 1)"

definition read_falls_short :: "nat \<Rightarrow> rd \<Rightarrow> bool" where
  "read_falls_short n r = (case r of RdErr \<Rightarrow> True | RdBytes bs \<Rightarrow> length bs < n)"

text \<open>
  The array literal in the words of the specification: the values, eight per line,
  separated by commas, between \<^verbatim>\<open>name[] = {\<close> and a closing brace and semicolon; each
  value is \<^verbatim>\<open>0x\<close> followed by eight hexadecimal digits.
\<close>

fun join_with :: "'a list \<Rightarrow> 'a list list \<Rightarrow> 'a list" where
  "join_with sep [] = []"
| "join_with sep [x] = x"
| "join_with sep (x # y # ys) = x @ sep @ join_with sep (y # ys)"

function chunks :: "nat \<Rightarrow> 'a list \<Rightarrow> 'a list list" where
  "chunks n xs = (if n = 0 \<or> xs = [] then [] else take n xs # chunks n (drop n xs))"
  by pat_completeness auto
termination
  by (relation "measure (\<lambda>(n, xs). length xs)") auto

declare chunks.simps [simp del]

text \<open>
  The text that the print loop of \<^verbatim>\<open>do_block\<close> produces for the values from index \<open>k\<close>
  on: the loop as a recursion over the values that are left.
\<close>

fun emit :: "nat \<Rightarrow> string list \<Rightarrow> string" where
  "emit k [] = []"
| "emit k [v] = v @ '' } ;\<newline>''"
| "emit k (v # v' # vs) =
     v @ (if k mod 8 = 7 then '',\<newline>'' else '', '') @ emit (k + 1) (v' # vs)"

definition is_hex8_literal :: "string \<Rightarrow> bool" where
  "is_hex8_literal s =
     (length s = 10 \<and> take 2 s = ''0x''
      \<and> list_all (\<lambda>c. c \<in> set hex_digits) (drop 2 s))"

text \<open>The number that a string of hexadecimal digits denotes.\<close>

definition digit_val :: "char \<Rightarrow> int" where
  "digit_val c = int (length (takeWhile (\<lambda>x. x \<noteq> c) hex_digits))"

definition hex_value :: "string \<Rightarrow> int" where
  "hex_value s = foldl (\<lambda>a c. 16 * a + digit_val c) 0 s"

definition array_literal :: "string \<Rightarrow> string list \<Rightarrow> string" where
  "array_literal name vals =
     ''static u32 '' @ name @ ''[] = {\<newline>''
     @ join_with '',\<newline>'' (map (join_with '', '') (chunks 8 vals))
     @ '' } ;\<newline>'' @ ''\<newline>''"

section \<open>Concrete environments\<close>

text \<open>
  A little-endian platform with signed \<^verbatim>\<open>char\<close>, and three environments: one whose device
  first hands out eight bytes (a good word and a zero word) and then the word
  \<open>0x78563412\<close> for ever, one whose device always has 768 good bytes, and one whose
  device hands out zero bytes for ever.
\<close>

definition demo_platform :: platform where
  "demo_platform = \<lparr>big_endian = False, char_signed = True\<rparr>"

definition demo_world :: world where
  "demo_world =
     \<lparr>open_result = 3, calloc_ok = (\<lambda>k. True), ncalloc = 0,
      urandom = (\<lambda>k. if k = 0 then RdBytes [0x0F, 0x0F, 0x0F, 0x0F, 0, 0, 0, 0]
                      else RdBytes [0x12, 0x34, 0x56, 0x78]),
      nread = 0, stdout = [], stderr = []\<rparr>"

definition pool_world :: world where
  "pool_world =
     \<lparr>open_result = 3, calloc_ok = (\<lambda>k. True), ncalloc = 0,
      urandom = (\<lambda>k. RdBytes (replicate 768 0x5A)),
      nread = 0, stdout = [], stderr = []\<rparr>"

definition stuck_world :: "nat \<Rightarrow> world" where
  "stuck_world n =
     \<lparr>open_result = 3, calloc_ok = (\<lambda>k. True), ncalloc = 0,
      urandom = (\<lambda>k. RdBytes (replicate (4 * n) 0)),
      nread = 0, stdout = [], stderr = []\<rparr>"

section \<open>Properties of \<^verbatim>\<open>hamming\<close>\<close>

text \<open>
  Clearing the lowest set bit: \<open>m AND (m - 1)\<close> has the bits of \<open>m\<close> except for one bit
  that \<open>m\<close> has.  First on natural numbers, by induction on the binary representation,
  then on words.
\<close>

lemma bit_clear_lowest_nat:
  "0 < m \<Longrightarrow> \<exists>k. bit m k \<and> (\<forall>n. bit (m AND (m - 1)) n \<longleftrightarrow> bit m n \<and> n \<noteq> k)" for m :: nat
proof (induction m rule: less_induct)
  case (less m)
  show ?case
  proof (cases "odd m")
    case True
    have "\<not> bit (m - 1) 0"
      using True by (simp add: bit_0)
    then have "\<forall>n. bit (m AND (m - 1)) n \<longleftrightarrow> bit m n \<and> n \<noteq> 0"
      using odd_bit_iff_bit_pred [OF True] by (metis bit_and_iff)
    moreover have "bit m 0" using True by (simp add: bit_0)
    ultimately show ?thesis by blast
  next
    case False
    then obtain q where q: "m = 2 * q" by (auto elim: evenE)
    with less.prems have qpos: "0 < q" by simp
    then have "q < m" using q by simp
    from less.IH [OF this qpos] obtain k where
      k: "bit q k" "\<forall>n. bit (q AND (q - 1)) n \<longleftrightarrow> bit q n \<and> n \<noteq> k" by blast
    have pred: "(m - 1) div 2 = q - 1" using q qpos by (cases q) auto
    have "bit m (Suc k)" using k(1) q by (simp add: bit_Suc)
    moreover have "bit (m AND (m - 1)) n \<longleftrightarrow> bit m n \<and> n \<noteq> Suc k" for n
    proof (cases n)
      case 0
      then show ?thesis using False by (simp add: bit_0 even_and_iff)
    next
      case (Suc n')
      have "bit (m AND (m - 1)) (Suc n') \<longleftrightarrow> bit m (Suc n') \<and> bit (m - 1) (Suc n')"
        by (simp only: bit_and_iff)
      also have "\<dots> \<longleftrightarrow> bit q n' \<and> bit (q - 1) n'"
        using q pred by (simp add: bit_Suc)
      also have "\<dots> \<longleftrightarrow> bit (q AND (q - 1)) n'"
        by (simp only: bit_and_iff)
      finally have "bit (m AND (m - 1)) (Suc n') \<longleftrightarrow> bit (q AND (q - 1)) n'" .
      then show ?thesis using k(2) Suc q by (simp add: bit_Suc)
    qed
    ultimately show ?thesis by blast
  qed
qed

lemma popcount_card: "popcount x = card {n. bit x n}"
proof -
  have "{n. bit x n} = set (filter (bit x) [0..<32])"
    by (auto dest: bit_imp_le_length)
  moreover have "distinct (filter (bit x) [0..<32])" by simp
  ultimately show ?thesis
    unfolding popcount_def by (metis distinct_card)
qed

lemma bit_clear_lowest:
  assumes "x \<noteq> (0::u32)"
  shows "\<exists>k. bit x k \<and> (\<forall>n. bit (x AND (x - 1)) n \<longleftrightarrow> bit x n \<and> n \<noteq> k)"
proof -
  have pos: "0 < unat x" using assms by (simp add: unat_gt_0)
  have un: "unat (x AND (x - 1)) = unat x AND (unat x - 1)"
    using assms by (simp add: unsigned_and_eq unat_minus_one)
  from bit_clear_lowest_nat [OF pos] obtain k where
    k: "bit (unat x) k" "\<forall>n. bit (unat x AND (unat x - 1)) n \<longleftrightarrow> bit (unat x) n \<and> n \<noteq> k"
    by blast
  have a: "bit y n \<longleftrightarrow> bit (unat y) n" for y :: u32 and n
    by (auto simp: bit_unsigned_iff)
  show ?thesis
    using k un by (metis a)
qed

lemma popcount_zero_iff: "popcount x = 0 \<longleftrightarrow> x = 0"
proof -
  have "popcount x = 0 \<longleftrightarrow> {n. bit x n} = {}"
    by (simp add: popcount_card)
  also have "\<dots> \<longleftrightarrow> (\<forall>n. \<not> bit x n)"
    by blast
  also have "\<dots> \<longleftrightarrow> x = 0"
  proof
    assume "\<forall>n. \<not> bit x n"
    then show "x = 0" by (intro bit_eqI) simp
  next
    assume "x = 0"
    then show "\<forall>n. \<not> bit x n" by simp
  qed
  finally show ?thesis .
qed

lemma popcount_clear_lowest: "popcount (x AND (x - 1)) = popcount x - 1"
proof (cases "x = 0")
  case True
  then show ?thesis by (simp add: popcount_def)
next
  case False
  from bit_clear_lowest [OF False] obtain k where
    k: "bit x k" "\<forall>n. bit (x AND (x - 1)) n \<longleftrightarrow> bit x n \<and> n \<noteq> k" by blast
  have "{n. bit (x AND (x - 1)) n} = {n. bit x n} - {k}"
    using k(2) by auto
  moreover have "k \<in> {n. bit x n}" using k(1) by simp
  moreover have "finite {n. bit x n}" by simp
  ultimately show ?thesis
    by (simp add: popcount_card)
qed

lemma hamming_loop_popcount: "hamming_loop s = snd s + int (popcount (fst s))"
proof (induction s rule: hamming_loop.induct)
  case (1 s)
  show ?case
  proof (cases "fst s = 0")
    case True
    then show ?thesis by (simp add: hamming_loop.simps [of s] popcount_zero_iff)
  next
    case False
    then have "0 < popcount (fst s)" using popcount_zero_iff [of "fst s"] by simp
    with False 1 show ?thesis
      by (simp add: hamming_loop.simps [of s] hamming_body_def popcount_clear_lowest)
  qed
qed

lemma hamming_body_funpow:
  "popcount (fst ((hamming_body ^^ k) s)) = popcount (fst s) - k
   \<and> snd ((hamming_body ^^ k) s) = snd s + int k"
  by (induction k) (auto simp: hamming_body_def popcount_clear_lowest)

lemma hamming_popcount: "hamming x = int (popcount x)"
  by (simp add: hamming_def hamming_loop_popcount)

section \<open>Properties of \<^verbatim>\<open>accept\<close>\<close>

lemma char_to_int_eq_iff: "char_to_int pf a = char_to_int pf b \<longleftrightarrow> a = b"
  by (auto simp: char_to_int_def intro: signed_word_eqI unsigned_word_eqI)

lemma esc_000: "octal_escape 0 0 0 = 0"
  by (simp add: octal_escape_def)

lemma esc_255: "octal_escape 2 5 5 = 0xAD"
  by (simp add: octal_escape_def)

lemma set_mem_bytes: "set (mem_bytes pf u) = set (word_bytes u)"
  by (simp add: mem_bytes_def)

lemma length_mem_bytes: "length (mem_bytes pf u) = 4"
  by (simp add: mem_bytes_def word_bytes_def)

lemma accept_loop_bytes:
  "accept_loop pf u 0 = (if \<exists>b \<in> set (word_bytes u). b = 0 \<or> b = 0xAD then 0 else 1)"
proof -
  have unf: "accept_loop pf u i =
     (if i < 4 then (if mem_bytes pf u ! i = 0 \<or> mem_bytes pf u ! i = 0xAD then 0
        else accept_loop pf u (Suc i)) else 1)" for i
    by (subst accept_loop.simps) (simp add: char_to_int_eq_iff esc_000 esc_255)
  have ex4: "(\<exists>i < 4. P i) \<longleftrightarrow> P 0 \<or> P (Suc 0) \<or> P (Suc (Suc 0)) \<or> P (Suc (Suc (Suc 0)))"
    for P :: "nat \<Rightarrow> bool"
    by (auto simp: less_Suc_eq numeral_eq_Suc)
  have "accept_loop pf u 0 =
     (if \<exists>i < 4. mem_bytes pf u ! i = 0 \<or> mem_bytes pf u ! i = 0xAD then 0 else 1)"
    unfolding ex4
    by (simp add: unf [of 0] unf [of "Suc 0"] unf [of "Suc (Suc 0)"] unf [of "Suc (Suc (Suc 0))"]
        unf [of "Suc (Suc (Suc (Suc 0)))"])
  moreover have "(\<exists>i < 4. mem_bytes pf u ! i = 0 \<or> mem_bytes pf u ! i = 0xAD)
     \<longleftrightarrow> (\<exists>b \<in> set (mem_bytes pf u). b = 0 \<or> b = 0xAD)"
    using length_mem_bytes [of pf u] by (metis in_set_conv_nth)
  ultimately show ?thesis
    by (simp only: set_mem_bytes)
qed

text \<open>
  What \<^verbatim>\<open>accept\<close> computes: the byte test compares with the bytes \<open>0x00\<close> and \<open>0xAD\<close>
  (octal 255 is decimal 173).
\<close>

lemma accept_char:
  "accept pf u =
     (if 8 \<le> popcount u \<and> popcount u \<le> 24 \<and> (\<forall>b \<in> set (word_bytes u). b \<noteq> 0 \<and> b \<noteq> 0xAD)
      then 1 else 0)"
proof -
  show ?thesis
    unfolding accept_def Let_def hamming_popcount accept_loop_bytes MIN_weight_def MAX_weight_def
    by auto
qed

section \<open>The claims about the acceptance filter\<close>

text \<open>
  Claim C8.  For every 32-bit \<open>x\<close>, \<^verbatim>\<open>hamming(x)\<close> returns the population count of \<open>x\<close>,
  and the loop that clears the lowest set bit runs exactly \<open>popcount x\<close> times: after
  that many passes through the body the value is zero (and the counter is the result),
  after fewer passes it is not.
\<close>

theorem hamming_is_popcount:
  "hamming x = int (popcount x)
   \<and> fst ((hamming_body ^^ popcount x) (x, 0)) = 0
   \<and> snd ((hamming_body ^^ popcount x) (x, 0)) = hamming x
   \<and> (\<forall>k < popcount x. fst ((hamming_body ^^ k) (x, 0)) \<noteq> 0)"
proof -
  have b: "fst ((hamming_body ^^ popcount x) (x, 0)) = 0"
    using hamming_body_funpow [of "popcount x" "(x, 0)"] by (simp add: popcount_zero_iff)
  have c: "snd ((hamming_body ^^ popcount x) (x, 0)) = hamming x"
    using hamming_body_funpow [of "popcount x" "(x, 0)"] by (simp add: hamming_popcount)
  have d: "fst ((hamming_body ^^ k) (x, 0)) \<noteq> 0" if "k < popcount x" for k
  proof -
    have "popcount (fst ((hamming_body ^^ k) (x, 0))) = popcount x - k"
      using hamming_body_funpow [of k "(x, 0)"] by simp
    with that have "popcount (fst ((hamming_body ^^ k) (x, 0))) \<noteq> 0" by simp
    then show ?thesis by (simp add: popcount_zero_iff)
  qed
  from hamming_popcount b c d show ?thesis by blast
qed

theorem hamming_is_popcount_witness:
  "hamming 0x0F0F0F0F = 16 \<and> popcount 0x0F0F0F0F = 16
   \<and> fst ((hamming_body ^^ 15) (0x0F0F0F0F, 0)) \<noteq> 0
   \<and> fst ((hamming_body ^^ 16) (0x0F0F0F0F, 0)) = 0"
proof -
  have p: "popcount 0x0F0F0F0F = 16" by code_simp
  show ?thesis
    using hamming_is_popcount [of "0x0F0F0F0F"] unfolding p by simp
qed

text \<open>
  Claim C9.  The test vectors: \<^verbatim>\<open>accept\<close> rejects \<open>0x00000000\<close> (population count 0),
  \<open>0xFFFFFFFF\<close> (32) and \<open>0x0000000F\<close> (4), accepts \<open>0x0F0F0F0F\<close> (16, every byte
  \<open>0x0F\<close>), and rejects \<open>0x00FFFF00\<close>, whose population count 16 passes the weight check,
  in the byte loop because of its \<open>0x00\<close> bytes.
\<close>

theorem accept_test_vectors:
  "accept pf 0x00000000 = 0 \<and> popcount 0x00000000 = 0
   \<and> accept pf 0xFFFFFFFF = 0 \<and> popcount 0xFFFFFFFF = 32
   \<and> accept pf 0x0000000F = 0 \<and> popcount 0x0000000F = 4
   \<and> accept pf 0x0F0F0F0F = 1 \<and> popcount 0x0F0F0F0F = 16 \<and> word_bytes 0x0F0F0F0F = [0x0F, 0x0F, 0x0F, 0x0F]
   \<and> accept pf 0x00FFFF00 = 0 \<and> popcount 0x00FFFF00 = 16 \<and> word_bytes 0x00FFFF00 = [0x00, 0xFF, 0xFF, 0x00]
   \<and> MIN_weight \<le> hamming 0x00FFFF00 \<and> hamming 0x00FFFF00 \<le> MAX_weight
   \<and> accept_loop pf 0x00FFFF00 0 = 0"
proof -
  have p: "popcount 0x00000000 = 0" "popcount 0xFFFFFFFF = 32" "popcount 0x0000000F = 4"
    "popcount 0x0F0F0F0F = 16" "popcount 0x00FFFF00 = 16"
    by code_simp+
  have b: "word_bytes 0x0F0F0F0F = [0x0F, 0x0F, 0x0F, 0x0F]"
    "word_bytes 0x00FFFF00 = [0x00, 0xFF, 0xFF, 0x00]"
    by (simp_all add: word_bytes_def)
  show ?thesis
    by (simp add: accept_char accept_loop_bytes hamming_popcount p b MIN_weight_def MAX_weight_def)
qed

text \<open>
  Claim C3.  The byte check of \<^verbatim>\<open>accept\<close> rejects exactly the byte values \<open>0x00\<close> and
  \<open>0xAD\<close> (decimal 173, the value of the octal constant \<^verbatim>\<open>'\255'\<close>): a word with such a
  byte is rejected, a word with population count in \<open>[8, 24]\<close> and no such byte is
  accepted, and the word \<open>0xFF0F0F0F\<close>, which has a \<open>0xFF\<close> byte and population count 20,
  is accepted.
\<close>

theorem accept_rejects_00_AD:
  "((\<exists>b \<in> set (word_bytes u). b = 0x00 \<or> b = 0xAD) \<longrightarrow> accept pf u = 0)
   \<and> (8 \<le> popcount u \<and> popcount u \<le> 24 \<and> (\<forall>b \<in> set (word_bytes u). b \<noteq> 0x00 \<and> b \<noteq> 0xAD)
        \<longrightarrow> accept pf u = 1)
   \<and> (accept pf u = 0 \<or> accept pf u = 1)
   \<and> octal_escape 2 5 5 = 0xAD \<and> unat (octal_escape 2 5 5) = 173
   \<and> 0xFF \<in> set (word_bytes 0xFF0F0F0F) \<and> popcount 0xFF0F0F0F = 20 \<and> accept pf 0xFF0F0F0F = 1"
proof -
  have p: "popcount 0xFF0F0F0F = 20" by code_simp
  have b: "word_bytes 0xFF0F0F0F = [0x0F, 0x0F, 0x0F, 0xFF]"
    by (simp add: word_bytes_def)
  have "accept pf 0xFF0F0F0F = 1"
    by (simp add: accept_char p b)
  moreover have "unat (octal_escape 2 5 5) = 173"
    by (simp add: esc_255)
  ultimately show ?thesis
    by (auto simp: accept_char p b esc_255)
qed

theorem accept_rejects_00_AD_witness:
  "accept \<lparr>big_endian = False, char_signed = True\<rparr> 0x0F0FAD0F = 0
   \<and> accept \<lparr>big_endian = False, char_signed = True\<rparr> 0x0F0FFF0F = 1"
proof -
  have p: "popcount 0x0F0FFF0F = 20" by code_simp
  have b: "word_bytes 0x0F0FAD0F = [0x0F, 0xAD, 0x0F, 0x0F]" "word_bytes 0x0F0FFF0F = [0x0F, 0xFF, 0x0F, 0x0F]"
    by (simp_all add: word_bytes_def)
  show ?thesis
    using accept_rejects_00_AD [of "0x0F0FAD0F" "\<lparr>big_endian = False, char_signed = True\<rparr>"]
      accept_rejects_00_AD [of "0x0F0FFF0F" "\<lparr>big_endian = False, char_signed = True\<rparr>"]
    by (simp add: p b)
qed

text \<open>
  Claim C1.  The claim asks \<^verbatim>\<open>accept\<close> to return 1 exactly for the words with population
  count in \<open>[8, 24]\<close> and no byte \<open>0x00\<close> or \<open>0xFF\<close>.  The code compares with \<^verbatim>\<open>'\255'\<close>,
  which is octal, where its comment (at least one 1 and at least one 0 in each byte)
  needs \<open>0xFF\<close>: it accepts \<open>0x0F0F0FFF\<close>, which has a \<open>0xFF\<close> byte, and rejects
  \<open>0xAD0F0F0F\<close>, which has population count 17 and no \<open>0x00\<close> or \<open>0xFF\<close> byte.
\<close>

theorem accept_differs_from_FF_filter:
  "accept pf 0x0F0F0FFF = 1 \<and> 0xFF \<in> set (word_bytes 0x0F0F0FFF) \<and> popcount 0x0F0F0FFF = 20
   \<and> accept pf 0xAD0F0F0F = 0 \<and> popcount 0xAD0F0F0F = 17
   \<and> word_bytes 0xAD0F0F0F = [0x0F, 0x0F, 0x0F, 0xAD]"
proof -
  have p: "popcount 0x0F0F0FFF = 20" "popcount 0xAD0F0F0F = 17" by code_simp+
  have b: "word_bytes 0x0F0F0FFF = [0xFF, 0x0F, 0x0F, 0x0F]" "word_bytes 0xAD0F0F0F = [0x0F, 0x0F, 0x0F, 0xAD]"
    by (simp_all add: word_bytes_def)
  show ?thesis
    by (simp add: accept_char p b)
qed

section \<open>Properties of \<^verbatim>\<open>do_block\<close>\<close>

subsection \<open>Bytes and words\<close>

lemma le_word_bytes: "le_word (word_bytes u) = u"
proof (rule bit_eqI)
  fix n
  assume "possible_bit TYPE(u32) n"
  then have n: "n < 32" by (simp add: possible_bit_word)
  have sh: "k \<le> n \<Longrightarrow> k + (n - k) = n" for k by simp
  consider "n < 8" | "8 \<le> n" "n < 16" | "16 \<le> n" "n < 24" | "24 \<le> n"
    by linarith
  then show "bit (le_word (word_bytes u)) n = bit u n"
  proof cases
    case 1
    then show ?thesis
      by (simp add: le_word_def word_bytes_def bit_or_iff bit_push_bit_iff bit_ucast_iff bit_drop_bit_eq)
  next
    case 2
    then show ?thesis using sh [of 8]
      by (auto simp: le_word_def word_bytes_def bit_or_iff bit_push_bit_iff bit_ucast_iff bit_drop_bit_eq)
  next
    case 3
    then show ?thesis using sh [of 16]
      by (auto simp: le_word_def word_bytes_def bit_or_iff bit_push_bit_iff bit_ucast_iff bit_drop_bit_eq)
  next
    case 4
    then show ?thesis using sh [of 24] n
      by (auto simp: le_word_def word_bytes_def bit_or_iff bit_push_bit_iff bit_ucast_iff bit_drop_bit_eq)
  qed
qed

lemma mem_word_bytes: "mem_word pf (mem_bytes pf u) = u"
  by (simp add: mem_word_def mem_bytes_def le_word_bytes)

lemma poke_Nil: "poke pf u [] = u"
  by (simp add: poke_def mem_word_bytes)

lemma poke_full: "length bs = 4 \<Longrightarrow> poke pf u bs = mem_word pf bs"
  by (simp add: poke_def length_mem_bytes)

lemma sys_read_fields:
  "sys_read n w = ((r, bs), w') \<Longrightarrow>
     w' = w\<lparr>nread := nread w + 1\<rparr> \<and> (r = 0 \<longrightarrow> bs = []) \<and> length bs \<le> n"
proof -
  assume a: "sys_read n w = ((r, bs), w')"
  then have "w' = w\<lparr>nread := nread w + 1\<rparr>"
    by (auto simp: sys_read_def split: rd.splits)
  moreover from a have "r = 0 \<longrightarrow> bs = []"
    by (auto simp: sys_read_def simp del: length_take split: rd.splits)
  moreover from a have "length bs \<le> n"
    by (auto simp: sys_read_def split: rd.splits)
  ultimately show ?thesis by simp
qed

lemmas retry_induct = retry.raw_induct [rotated 1, of "((((pf, i), x), data), w)" y, simplified] for pf i x data w y


text \<open>What a finished retry loop guarantees.\<close>

lemma retry_Some:
  assumes "retry pf i x data w = Some y"
  shows "i < length data \<longrightarrow>
     (case y of (x', data', w') \<Rightarrow>
        accept pf (data' ! i) \<noteq> 0 \<and> length data' = length data
        \<and> (\<forall>j. j \<noteq> i \<longrightarrow> data' ! j = data ! j)
        \<and> (accept pf (data ! i) \<noteq> 0 \<longrightarrow> x' = x \<and> data' = data \<and> w' = w)
        \<and> (accept pf (data ! i) = 0 \<longrightarrow> x' \<noteq> 0)
        \<and> nread w \<le> nread w'
        \<and> w' = w\<lparr>nread := nread w'\<rparr>)"
  using assms
proof (induction rule: retry_induct [consumes 1])
  case (1 retry pf i x data w y)
  show ?case
  proof (cases "accept pf (data ! i) = 0")
    case False
    with 1(2) show ?thesis by auto
  next
    case True
    obtain r bs w1 where rd: "sys_read 4 w = ((r, bs), w1)"
      by (metis prod.exhaust)
    let ?d = "data[i := poke pf (data ! i) bs]"
    from 1(2) True rd have rec: "retry pf i r ?d w1 = Some y" by simp
    note f = sys_read_fields [OF rd]
    obtain x' data' w' where y: "y = (x', data', w')" by (metis prod.exhaust)
    show ?thesis
    proof
      assume i: "i < length data"
      then have i': "i < length ?d" by simp
      from 1(1) [OF rec] i' y
      have ih: "accept pf (data' ! i) \<noteq> 0" "length data' = length ?d"
        "\<forall>j. j \<noteq> i \<longrightarrow> data' ! j = ?d ! j"
        "accept pf (?d ! i) \<noteq> 0 \<longrightarrow> x' = r \<and> data' = ?d \<and> w' = w1"
        "accept pf (?d ! i) = 0 \<longrightarrow> x' \<noteq> 0"
        "nread w1 \<le> nread w'" "w' = w1\<lparr>nread := nread w'\<rparr>"
        by auto
      have "x' \<noteq> 0"
      proof (cases "accept pf (?d ! i) = 0")
        case True
        with ih(5) show ?thesis by simp
      next
        case False
        with ih(4) have "x' = r" by simp
        moreover have "r \<noteq> 0"
        proof
          assume "r = 0"
          with f have "bs = []" by simp
          with i have "?d ! i = data ! i" by (simp add: poke_Nil)
          with False True show False by simp
        qed
        ultimately show ?thesis by simp
      qed
      moreover have "nread w \<le> nread w'" using ih(6) f by simp
      moreover have "w' = w\<lparr>nread := nread w'\<rparr>" using ih(7) f by simp
      ultimately show "case y of (x', data', w') \<Rightarrow>
        accept pf (data' ! i) \<noteq> 0 \<and> length data' = length data
        \<and> (\<forall>j. j \<noteq> i \<longrightarrow> data' ! j = data ! j)
        \<and> (accept pf (data ! i) \<noteq> 0 \<longrightarrow> x' = x \<and> data' = data \<and> w' = w)
        \<and> (accept pf (data ! i) = 0 \<longrightarrow> x' \<noteq> 0)
        \<and> nread w \<le> nread w'
        \<and> w' = w\<lparr>nread := nread w'\<rparr>"
        using ih(1,2,3) True y by simp
    qed
  qed
qed

subsection \<open>The loops\<close>

lemma accept_01: "accept pf u \<noteq> 0 \<longleftrightarrow> accept pf u = 1"
  by (simp add: accept_char)

lemma fix_words_Some:
  "fix_words pf nwords i x data w = Some (data', w') \<Longrightarrow> x \<noteq> 0 \<Longrightarrow> length data = nwords \<Longrightarrow>
     length data' = nwords
     \<and> (\<forall>j. i \<le> j \<and> j < nwords \<longrightarrow> accept pf (data' ! j) = 1)
     \<and> (\<forall>j < i. data' ! j = data ! j)
     \<and> nread w \<le> nread w' \<and> w' = w\<lparr>nread := nread w'\<rparr>"
proof (induction pf nwords i x data w rule: fix_words.induct)
  case (1 pf nwords i x data w)
  show ?case
  proof (cases "i < nwords")
    case False
    with "1.prems" show ?thesis
      by (simp add: fix_words.simps [of pf nwords i])
  next
    case True
    with "1.prems" obtain x1 d1 w1 where
      r: "retry pf i x data w = Some (x1, d1, w1)"
      and f: "fix_words pf nwords (i + 1) x1 d1 w1 = Some (data', w')"
      by (auto simp: fix_words.simps [of pf nwords i] split: option.splits)
    from retry_Some [OF r] True "1.prems"(3)
    have q: "accept pf (d1 ! i) \<noteq> 0" "length d1 = length data"
      "\<forall>j. j \<noteq> i \<longrightarrow> d1 ! j = data ! j"
      "accept pf (data ! i) \<noteq> 0 \<longrightarrow> x1 = x"
      "accept pf (data ! i) = 0 \<longrightarrow> x1 \<noteq> 0"
      "nread w \<le> nread w1" "w1 = w\<lparr>nread := nread w1\<rparr>"
      by auto
    from q(4,5) "1.prems"(2) have x1: "x1 \<noteq> 0" by blast
    from "1.IH" [OF _ r refl refl f x1] True "1.prems" q(2)
    have ih: "length data' = nwords"
      "\<forall>j. i + 1 \<le> j \<and> j < nwords \<longrightarrow> accept pf (data' ! j) = 1"
      "\<forall>j < i + 1. data' ! j = d1 ! j"
      "nread w1 \<le> nread w'" "w' = w1\<lparr>nread := nread w'\<rparr>"
      by auto
    have "accept pf (data' ! j) = 1" if "i \<le> j" "j < nwords" for j
    proof (cases "j = i")
      case True
      with ih(3) q(1) show ?thesis by (simp add: accept_01)
    next
      case False
      with that ih(2) show ?thesis by simp
    qed
    moreover have "data' ! j = data ! j" if "j < i" for j
      using that ih(3) q(3) by simp
    moreover have "w' = w\<lparr>nread := nread w'\<rparr>"
      using ih(5) q(7) by (metis world.surjective world.update_convs(5) world.select_convs(5))
    ultimately show ?thesis
      using ih(1,4) q(6) by auto
  qed
qed

lemma print_words_emit:
  "length data = nwords \<Longrightarrow>
   print_words nwords data i w =
     printf_out (emit i (map (\<lambda>u. ''0x'' @ fmt_08x u) (drop i data))) w"
proof (induction nwords data i w rule: print_words.induct)
  case (1 nwords data i w)
  show ?case
  proof (cases "i < nwords")
    case False
    with "1.prems" show ?thesis
      by (simp add: print_words.simps [of nwords data i] printf_out_def)
  next
    case True
    with "1.prems" have d: "drop i data = data ! i # drop (i + 1) data"
      by (simp add: Cons_nth_drop_Suc)
    define w1 where "w1 = printf_out (''0x'' @ fmt_08x (data ! i)) w"
    define w2 where "w2 =
      (if i = nwords - 1 then printf_out '' } ;\<newline>'' w1
       else if i mod PER_LINE = PER_LINE - 1 then printf_out '',\<newline>'' w1
       else printf_out '', '' w1)"
    have step: "print_words nwords data i w = print_words nwords data (i + 1) w2"
      by (subst print_words.simps) (simp add: True Let_def w1_def w2_def)
    have ih: "print_words nwords data (i + 1) w2 =
      printf_out (emit (i + 1) (map (\<lambda>u. ''0x'' @ fmt_08x u) (drop (i + 1) data))) w2"
      by (rule "1.IH" [OF True w1_def w2_def "1.prems"])
    show ?thesis
    proof (cases "i = nwords - 1")
      case last: True
      with "1.prems" True have e: "drop (i + 1) data = []" by simp
      from last have "w2 = printf_out '' } ;\<newline>'' w1"
        by (simp add: w2_def)
      then show ?thesis
        unfolding step ih d e by (simp add: printf_out_def w1_def)
    next
      case notlast: False
      with True "1.prems" have "i + 1 < length data" by simp
      then have d2: "drop (i + 1) data = data ! (i + 1) # drop (i + 2) data"
        by (metis Cons_nth_drop_Suc Suc_eq_plus1 add_2_eq_Suc')
      from notlast have "w2 = printf_out (if i mod 8 = 7 then '',\<newline>'' else '', '') w1"
        by (simp add: w2_def PER_LINE_def)
      then show ?thesis
        unfolding step ih d d2 by (simp add: printf_out_def w1_def)
    qed
  qed
qed

lemma chunks_nonempty: "vs \<noteq> [] \<Longrightarrow> chunks 8 vs = take 8 vs # chunks 8 (drop 8 vs)"
  by (simp add: chunks.simps [of 8 vs])

lemma join_rows_Cons:
  "rows \<noteq> [] \<Longrightarrow> join_with sep (r # rows) = r @ sep @ join_with sep rows"
  by (cases rows) simp_all

lemma join_with_append_head:
  "join_with sep ((a @ b) # rows) = a @ join_with sep (b # rows)"
  by (cases rows) simp_all

lemma emit_chunks:
  "vs \<noteq> [] \<Longrightarrow>
   emit k vs =
     join_with '',\<newline>'' (map (join_with '', '')
        (take (8 - k mod 8) vs # chunks 8 (drop (8 - k mod 8) vs))) @ '' } ;\<newline>''"
proof (induction k vs rule: emit.induct)
  case (1 k)
  then show ?case by simp
next
  case (2 k v)
  have "8 - k mod 8 = Suc (7 - k mod 8)" by arith
  then show ?case by (simp add: chunks.simps [of 8 "[]"])
next
  case (3 k v v' vs)
  show ?case
  proof (cases "k mod 8 = 7")
    case True
    then have m: "Suc k mod 8 = 0" by presburger
    from 3 have ih: "emit (k + 1) (v' # vs) =
      join_with '',\<newline>'' (map (join_with '', '')
        (take 8 (v' # vs) # chunks 8 (drop 8 (v' # vs)))) @ '' } ;\<newline>''"
      by (simp add: m)
    show ?thesis
      using True ih by (simp add: chunks_nonempty [of "v' # vs"])
  next
    case False
    then have sk: "Suc k mod 8 = Suc (k mod 8)"
      by (simp add: mod_Suc)
    define c where "c = 6 - k mod 8"
    have "k mod 8 < 8" by simp
    with False sk have c: "8 - k mod 8 = Suc (Suc c)" "8 - Suc k mod 8 = Suc c"
      unfolding c_def by linarith+
    from 3 have ih: "emit (k + 1) (v' # vs) =
      join_with '',\<newline>'' (map (join_with '', '')
        (take (Suc c) (v' # vs) # chunks 8 (drop (Suc c) (v' # vs)))) @ '' } ;\<newline>''"
      by (simp add: c)
    have "join_with '',\<newline>'' ((v @ '', '' @ r) # rows) = v @ '', '' @ join_with '',\<newline>'' (r # rows)"
      for r rows
      using join_with_append_head [of "'',\<newline>''" "v @ '', ''" r rows] by simp
    then show ?thesis
      using False ih by (simp add: c)
  qed
qed

subsection \<open>Formatting\<close>

lemma digit_char_hex: "d < 16 \<Longrightarrow> digit_char d \<in> set hex_digits"
  unfolding digit_char_def by (rule nth_mem) (simp add: hex_digits_def)

lemma radix_digits_hex: "0 \<le> n \<Longrightarrow> set (radix_digits 16 n) \<subseteq> set hex_digits"
proof (induction "16 :: int" n rule: radix_digits.induct)
  case (1 n)
  show ?case
  proof (cases "n < 16")
    case True
    with "1.prems" have "nat n < 16" by simp
    with True show ?thesis
      using digit_char_hex [of "nat n"] by (simp add: radix_digits.simps [of 16 n])
  next
    case False
    have "nat (n mod 16) < 16" by simp
    moreover from "1.prems" have "0 \<le> n div 16" by simp
    ultimately show ?thesis
      using False 1 digit_char_hex [of "nat (n mod 16)"]
      by (simp add: radix_digits.simps [of 16 n])
  qed
qed

lemma radix_digits_length:
  "0 \<le> n \<Longrightarrow> n < 16 ^ k \<Longrightarrow> 0 < k \<Longrightarrow> length (radix_digits 16 n) \<le> k"
proof (induction "16 :: int" n arbitrary: k rule: radix_digits.induct)
  case (1 n)
  show ?case
  proof (cases "n < 16")
    case True
    with "1.prems" show ?thesis
      by (simp add: radix_digits.simps [of 16 n])
  next
    case False
    from "1.prems" obtain k' where k: "k = Suc k'" by (cases k) auto
    with "1.prems" False have "0 < k'" by (cases k') auto
    moreover have "n div 16 < 16 ^ k'"
    proof -
      from "1.prems" k have "n < 16 * 16 ^ k'" by simp
      then show ?thesis by linarith
    qed
    moreover from "1.prems" have "0 \<le> n div 16" by simp
    ultimately have "length (radix_digits 16 (n div 16)) \<le> k'"
      using "1.hyps" False by simp
    with False k show ?thesis
      by (simp add: radix_digits.simps [of 16 n])
  qed
qed

lemma length_fmt_08x: "length (fmt_08x u) = 8"
proof -
  have "uint u < 2 ^ 32" using uint_bounded [of u] by simp
  then have "uint u < 16 ^ 8" by simp
  moreover have "0 \<le> uint u" by simp
  ultimately have "length (radix_digits 16 (uint u)) \<le> 8"
    by (intro radix_digits_length) simp_all
  then show ?thesis by (simp add: fmt_08x_def Let_def)
qed

lemma set_fmt_08x: "set (fmt_08x u) \<subseteq> set hex_digits"
proof -
  have "set (replicate k (CHR ''0'')) \<subseteq> set hex_digits" for k
    by (cases k) (auto simp: hex_digits_def)
  with radix_digits_hex [of "uint u"] show ?thesis
    by (simp add: fmt_08x_def Let_def)
qed

lemma hex8_literal: "is_hex8_literal (''0x'' @ fmt_08x u)"
  using set_fmt_08x [of u] by (auto simp: is_hex8_literal_def length_fmt_08x list_all_iff)


lemma length_words_of: "length (words_of pf bs) = length bs div 4"
  by (induction pf bs rule: words_of.induct) simp_all

lemma do_block_cases:
  "do_block pf nwords name w =
     (if \<not> calloc_ok w (ncalloc w) then
        Some (Inl (1, w\<lparr>ncalloc := ncalloc w + 1,
           stderr := stderr w @ ''gen_random_init: calloc() failed, cannot continue\<newline>''\<rparr>))
      else if read_falls_short (4 * nwords) (urandom w (nread w)) then
        Some (Inl (1, w\<lparr>ncalloc := ncalloc w + 1, nread := nread w + 1,
           stderr := stderr w @ ''gen_random_int: read() failed, cannot contiue\<newline>''\<rparr>))
      else
        (case urandom w (nread w) of
           RdErr \<Rightarrow> None
         | RdBytes bs \<Rightarrow>
            (case fix_words pf nwords 0 1 (words_of pf (take (4 * nwords) bs))
                    (w\<lparr>ncalloc := ncalloc w + 1, nread := nread w + 1\<rparr>) of
               None \<Rightarrow> None
             | Some (data, w3) \<Rightarrow>
                 Some (Inr (printf_out ''\<newline>''
                   (print_words nwords data 0
                     (printf_out (''static u32 '' @ name @ ''[] = {\<newline>'') w3)))))))"
  by (auto simp: do_block_def sys_calloc_def sys_read_def read_falls_short_def printf_err_def
      Let_def split: rd.splits option.splits)

text \<open>The digits that \<^verbatim>\<open>%08x\<close> prints denote the word.\<close>

lemma digit_val_digit_char: "d < 16 \<Longrightarrow> digit_val (digit_char d) = int d"
proof -
  assume "d < 16"
  then have "d \<in> set [0..<16]" by simp
  moreover have "list_all (\<lambda>d. digit_val (digit_char d) = int d) [0..<16]"
    by code_simp
  ultimately show ?thesis
    unfolding list_all_iff by blast
qed

lemma hex_value_snoc: "hex_value (s @ [c]) = 16 * hex_value s + digit_val c"
  by (simp add: hex_value_def)

lemma hex_value_radix_digits: "0 \<le> n \<Longrightarrow> hex_value (radix_digits 16 n) = n"
proof (induction "16 :: int" n rule: radix_digits.induct)
  case (1 n)
  show ?case
  proof (cases "n < 16")
    case True
    with "1.prems" have "nat n < 16" by simp
    from digit_val_digit_char [OF this] True "1.prems" show ?thesis
      by (simp add: radix_digits.simps [of 16 n] hex_value_def)
  next
    case False
    have "nat (n mod 16) < 16" by simp
    from digit_val_digit_char [OF this] have d: "digit_val (digit_char (nat (n mod 16))) = n mod 16"
      by simp
    from "1.prems" have "0 \<le> n div 16" by simp
    with 1 False have "hex_value (radix_digits 16 (n div 16)) = n div 16" by simp
    with False d show ?thesis
      by (simp add: radix_digits.simps [of 16 n] hex_value_snoc)
  qed
qed

lemma hex_value_zeros: "hex_value (replicate k (CHR ''0'') @ s) = hex_value s"
proof -
  have z: "digit_val (CHR ''0'') = 0"
    using digit_val_digit_char [of 0] by (simp add: digit_char_def hex_digits_def)
  have "foldl (\<lambda>a c. 16 * a + digit_val c) 0 (replicate k (CHR ''0'')) = 0"
    by (induction k) (simp_all add: z)
  then show ?thesis by (simp add: hex_value_def)
qed

lemma hex_value_fmt_08x: "hex_value (fmt_08x u) = uint u"
  by (simp add: fmt_08x_def Let_def hex_value_zeros hex_value_radix_digits)

subsection \<open>Runs of \<^verbatim>\<open>do_block\<close>\<close>

lemma do_block_Inr:
  assumes "do_block pf nwords name w = Some (Inr w')"
  shows "\<exists>data w3. length data = nwords \<and> (\<forall>j < nwords. accept pf (data ! j) = 1)
     \<and> w' = printf_out ''\<newline>'' (print_words nwords data 0
              (printf_out (''static u32 '' @ name @ ''[] = {\<newline>'') w3))
     \<and> w3 = w\<lparr>ncalloc := ncalloc w + 1, nread := nread w3\<rparr> \<and> nread w < nread w3
     \<and> calloc_ok w (ncalloc w) \<and> \<not> read_falls_short (4 * nwords) (urandom w (nread w))"
proof -
  let ?w2 = "w\<lparr>ncalloc := ncalloc w + 1, nread := nread w + 1\<rparr>"
  from assms have c: "calloc_ok w (ncalloc w)"
    and s: "\<not> read_falls_short (4 * nwords) (urandom w (nread w))"
    by (auto simp: do_block_cases split: if_splits)
  from s obtain bs where bs: "urandom w (nread w) = RdBytes bs" "4 * nwords \<le> length bs"
    by (auto simp: read_falls_short_def split: rd.splits)
  let ?d = "words_of pf (take (4 * nwords) bs)"
  from assms c s bs obtain data w3 where
    f: "fix_words pf nwords 0 1 ?d ?w2 = Some (data, w3)"
    and w': "w' = printf_out ''\<newline>'' (print_words nwords data 0
              (printf_out (''static u32 '' @ name @ ''[] = {\<newline>'') w3))"
    by (auto simp: do_block_cases split: option.splits)
  from bs(2) have len: "length ?d = nwords"
    by (simp add: length_words_of)
  from fix_words_Some [OF f _ len]
  have q: "length data = nwords" "\<forall>j. 0 \<le> j \<and> j < nwords \<longrightarrow> accept pf (data ! j) = 1"
    "nread ?w2 \<le> nread w3" "w3 = ?w2\<lparr>nread := nread w3\<rparr>"
    by auto
  from q(4) have "w3 = w\<lparr>ncalloc := ncalloc w + 1, nread := nread w3\<rparr>" by simp
  moreover from q(3) have "nread w < nread w3" by simp
  ultimately show ?thesis
    using q(1,2) w' c s by blast
qed

lemma do_block_Inl:
  assumes "do_block pf nwords name w = Some (Inl (c, w'))"
  shows "c = 1 \<and> stdout w' = stdout w
     \<and> (stderr w' = stderr w @ ''gen_random_init: calloc() failed, cannot continue\<newline>''
          \<and> \<not> calloc_ok w (ncalloc w)
        \<or> stderr w' = stderr w @ ''gen_random_int: read() failed, cannot contiue\<newline>''
          \<and> calloc_ok w (ncalloc w) \<and> read_falls_short (4 * nwords) (urandom w (nread w)))"
  using assms
  by (auto simp: do_block_cases split: if_splits rd.splits option.splits)

text \<open>What a block that was printed leaves behind.\<close>

lemma do_block_Inr_world:
  assumes "do_block pf nwords name w = Some (Inr w')"
  shows "\<exists>data. length data = nwords \<and> (\<forall>j < nwords. accept pf (data ! j) = 1)
     \<and> stdout w' = stdout w @ ''static u32 '' @ name @ ''[] = {\<newline>''
          @ emit 0 (map (\<lambda>u. ''0x'' @ fmt_08x u) data) @ ''\<newline>''
     \<and> stderr w' = stderr w \<and> urandom w' = urandom w \<and> calloc_ok w' = calloc_ok w
     \<and> ncalloc w' = ncalloc w + 1 \<and> nread w < nread w' \<and> open_result w' = open_result w"
proof -
  from do_block_Inr [OF assms] obtain data w3 where
    d: "length data = nwords" "\<forall>j < nwords. accept pf (data ! j) = 1"
    and w': "w' = printf_out ''\<newline>'' (print_words nwords data 0
              (printf_out (''static u32 '' @ name @ ''[] = {\<newline>'') w3))"
    and w3: "w3 = w\<lparr>ncalloc := ncalloc w + 1, nread := nread w3\<rparr>" "nread w < nread w3"
    by blast
  have "w' = w3\<lparr>stdout := stdout w3 @ ''static u32 '' @ name @ ''[] = {\<newline>''
          @ emit 0 (map (\<lambda>u. ''0x'' @ fmt_08x u) data) @ ''\<newline>''\<rparr>"
    unfolding w' print_words_emit [OF d(1)] by (simp add: printf_out_def)
  then have "stdout w' = stdout w3 @ ''static u32 '' @ name @ ''[] = {\<newline>''
          @ emit 0 (map (\<lambda>u. ''0x'' @ fmt_08x u) data) @ ''\<newline>''"
    "stderr w' = stderr w3" "urandom w' = urandom w3" "calloc_ok w' = calloc_ok w3"
    "ncalloc w' = ncalloc w3" "nread w' = nread w3" "open_result w' = open_result w3"
    by simp_all
  moreover have "stdout w3 = stdout w" "stderr w3 = stderr w" "urandom w3 = urandom w"
    "calloc_ok w3 = calloc_ok w" "ncalloc w3 = ncalloc w + 1" "open_result w3 = open_result w"
    by (subst w3(1), simp)+
  ultimately show ?thesis
    using d w3(2) by auto
qed

lemma chunks_Nil: "chunks n [] = []"
  by (simp add: chunks.simps [of n "[]"])

lemma chunks_rows:
  "concat (chunks 8 vs) = vs
   \<and> (\<forall>r \<in> set (butlast (chunks 8 vs)). length r = 8)
   \<and> (vs \<noteq> [] \<longrightarrow> chunks 8 vs \<noteq> [] \<and> 0 < length (last (chunks 8 vs)) \<and> length (last (chunks 8 vs)) \<le> 8)"
proof (induction "8 :: nat" vs rule: chunks.induct)
  case (1 vs)
  show ?case
  proof (cases "vs = []")
    case True
    then show ?thesis by (simp add: chunks_Nil)
  next
    case False
    note ih = "1.hyps" [OF _]
    have c: "chunks 8 vs = take 8 vs # chunks 8 (drop 8 vs)"
      using False by (rule chunks_nonempty)
    show ?thesis
    proof (cases "drop 8 vs = []")
      case True
      then have "chunks 8 (drop 8 vs) = []" by (simp only: chunks_Nil)
      with c True False show ?thesis by simp
    next
      case d: False
      then have "8 < length vs" by simp
      with ih False d show ?thesis
        by (simp add: c)
    qed
  qed
qed

subsection \<open>Termination and divergence of the retry loop\<close>

lemma sys_read_4:
  "sys_read 4 w = ((r, bs), w1) \<Longrightarrow> urandom w (nread w) = RdBytes bs0 \<Longrightarrow> 4 \<le> length bs0 \<Longrightarrow>
     bs = take 4 bs0 \<and> length bs = 4"
  by (auto simp: sys_read_def)

lemma retry_terminates:
  "i < length data \<Longrightarrow> nread w \<le> k \<Longrightarrow> supplies_ok pf (urandom w k) \<Longrightarrow>
     retry pf i x data w \<noteq> None"
proof (induction "k - nread w" arbitrary: x data w)
  case 0
  then have k: "nread w = k" by simp
  show ?case
  proof (cases "accept pf (data ! i) = 0")
    case False
    then show ?thesis by (simp add: retry.simps [of pf i x data w])
  next
    case True
    obtain r bs w1 where rd: "sys_read 4 w = ((r, bs), w1)"
      by (metis prod.exhaust)
    from "0.prems"(3) k obtain bs0 where
      b: "urandom w (nread w) = RdBytes bs0" "4 \<le> length bs0"
         "accept pf (mem_word pf (take 4 bs0)) = 1"
      by (auto simp: supplies_ok_def split: rd.splits)
    from sys_read_4 [OF rd b(1,2)] have bs: "bs = take 4 bs0" "length bs = 4" by blast+
    let ?d = "data[i := poke pf (data ! i) bs]"
    have "accept pf (?d ! i) = 1"
      using "0.prems"(1) bs b(3) by (simp add: poke_full)
    then have "retry pf i r ?d w1 = Some (r, ?d, w1)"
      by (simp add: retry.simps [of pf i r ?d w1])
    with True rd show ?thesis
      by (simp add: retry.simps [of pf i x data w])
  qed
next
  case (Suc n)
  show ?case
  proof (cases "accept pf (data ! i) = 0")
    case False
    then show ?thesis by (simp add: retry.simps [of pf i x data w])
  next
    case True
    obtain r bs w1 where rd: "sys_read 4 w = ((r, bs), w1)"
      by (metis prod.exhaust)
    from sys_read_fields [OF rd] have w1: "w1 = w\<lparr>nread := nread w + 1\<rparr>" by simp
    let ?d = "data[i := poke pf (data ! i) bs]"
    have "retry pf i r ?d w1 \<noteq> None"
    proof (rule Suc.hyps(1))
      show "n = k - nread w1" using Suc.hyps(2) w1 by simp
      show "i < length ?d" using Suc.prems(1) by simp
      show "nread w1 \<le> k" using Suc.hyps(2) w1 by simp
      show "supplies_ok pf (urandom w1 k)" using Suc.prems(3) w1 by simp
    qed
    with True rd show ?thesis
      by (simp add: retry.simps [of pf i x data w])
  qed
qed

lemma fix_words_terminates:
  "length data = nwords \<Longrightarrow> \<forall>n. \<exists>k \<ge> n. supplies_ok pf (urandom w k) \<Longrightarrow>
     fix_words pf nwords i x data w \<noteq> None"
proof (induction pf nwords i x data w rule: fix_words.induct)
  case (1 pf nwords i x data w)
  show ?case
  proof (cases "x \<noteq> 0 \<and> i < nwords")
    case False
    then have "fix_words pf nwords i x data w = Some (data, w)"
      by (subst fix_words.simps) auto
    then show ?thesis by simp
  next
    case True
    from "1.prems"(2) obtain k where k: "nread w \<le> k" "supplies_ok pf (urandom w k)"
      by blast
    from True "1.prems"(1) have i: "i < length data" by simp
    from retry_terminates [OF i k] obtain x1 d1 w1 where
      r: "retry pf i x data w = Some (x1, d1, w1)"
      by (metis not_None_eq prod.exhaust)
    from retry_Some [OF r] i have q: "length d1 = length data" "w1 = w\<lparr>nread := nread w1\<rparr>"
      by auto
    from q(2) have "urandom w1 = urandom w"
      by (metis world.select_convs(4) world.surjective world.update_convs(5))
    with "1.prems"(2) have "\<forall>n. \<exists>k \<ge> n. supplies_ok pf (urandom w1 k)" by simp
    with "1.IH" [OF True r refl refl] q(1) "1.prems"(1)
    have "fix_words pf nwords (i + 1) x1 d1 w1 \<noteq> None" by simp
    with True r show ?thesis
      by (simp add: fix_words.simps [of pf nwords i])
  qed
qed

lemma do_block_terminates:
  assumes "\<forall>n. \<exists>k \<ge> n. supplies_ok pf (urandom w k)"
  shows "do_block pf nwords name w \<noteq> None"
proof (cases "\<not> calloc_ok w (ncalloc w) \<or> read_falls_short (4 * nwords) (urandom w (nread w))")
  case True
  then show ?thesis by (auto simp: do_block_cases)
next
  case False
  then obtain bs where bs: "urandom w (nread w) = RdBytes bs" "4 * nwords \<le> length bs"
    by (auto simp: read_falls_short_def split: rd.splits)
  let ?w2 = "w\<lparr>ncalloc := ncalloc w + 1, nread := nread w + 1\<rparr>"
  have "length (words_of pf (take (4 * nwords) bs)) = nwords"
    using bs(2) by (simp add: length_words_of)
  moreover have "\<forall>n. \<exists>k \<ge> n. supplies_ok pf (urandom ?w2 k)"
    using assms by simp
  ultimately have "fix_words pf nwords 0 1 (words_of pf (take (4 * nwords) bs)) ?w2 \<noteq> None"
    by (rule fix_words_terminates)
  with False bs show ?thesis
    by (auto simp: do_block_cases)
qed

lemma retry_diverges_aux:
  assumes "retry pf i x data w = Some y"
  shows "\<not> (i < length data \<and> accept pf (data ! i) = 0
     \<and> (\<forall>k. \<exists>bs. urandom w k = RdBytes bs \<and> 4 \<le> length bs
            \<and> accept pf (mem_word pf (take 4 bs)) = 0))"
  using assms
proof (induction rule: retry_induct [consumes 1])
  case (1 retry pf i x data w y)
  show ?case
  proof
    assume a: "i < length data \<and> accept pf (data ! i) = 0
     \<and> (\<forall>k. \<exists>bs. urandom w k = RdBytes bs \<and> 4 \<le> length bs
            \<and> accept pf (mem_word pf (take 4 bs)) = 0)"
    obtain r bs w1 where rd: "sys_read 4 w = ((r, bs), w1)"
      by (metis prod.exhaust)
    from sys_read_fields [OF rd] have w1: "w1 = w\<lparr>nread := nread w + 1\<rparr>" by simp
    from a obtain bs0 where
      b: "urandom w (nread w) = RdBytes bs0" "4 \<le> length bs0"
         "accept pf (mem_word pf (take 4 bs0)) = 0"
      by blast
    from sys_read_4 [OF rd b(1,2)] have bs: "bs = take 4 bs0" "length bs = 4" by blast+
    let ?d = "data[i := poke pf (data ! i) bs]"
    from 1(2) a rd have rec: "retry pf i r ?d w1 = Some y" by simp
    have "i < length ?d \<and> accept pf (?d ! i) = 0
     \<and> (\<forall>k. \<exists>bs. urandom w1 k = RdBytes bs \<and> 4 \<le> length bs
            \<and> accept pf (mem_word pf (take 4 bs)) = 0)"
      using a bs b(3) w1 by (simp add: poke_full)
    with 1(1) [OF rec] show False by blast
  qed
qed

lemma retry_diverges:
  "i < length data \<Longrightarrow> accept pf (data ! i) = 0 \<Longrightarrow>
   \<forall>k. \<exists>bs. urandom w k = RdBytes bs \<and> 4 \<le> length bs \<and> accept pf (mem_word pf (take 4 bs)) = 0 \<Longrightarrow>
   retry pf i x data w = None"
  using retry_diverges_aux [of pf i x data w] by (cases "retry pf i x data w") auto

lemma words_of_hd: "4 \<le> length bs \<Longrightarrow> words_of pf bs ! 0 = mem_word pf (take 4 bs)"
proof -
  assume "4 \<le> length bs"
  then obtain a b c d rest where "bs = a # b # c # d # rest"
    by (metis (no_types, opaque_lifting) Suc_le_length_iff numeral_eq_Suc pred_numeral_simps(2)
        semiring_norm(26) semiring_norm(27) pred_numeral_simps(3) eval_nat_numeral(2))
  then show ?thesis by simp
qed

lemma do_block_diverges:
  assumes "0 < nwords" and "calloc_ok w (ncalloc w)"
    and "\<forall>k. \<exists>bs. urandom w k = RdBytes bs \<and> 4 * nwords \<le> length bs
            \<and> accept pf (mem_word pf (take 4 bs)) = 0"
  shows "do_block pf nwords name w = None"
proof -
  from assms(3) obtain bs where bs: "urandom w (nread w) = RdBytes bs" "4 * nwords \<le> length bs"
    "accept pf (mem_word pf (take 4 bs)) = 0" by blast
  let ?w2 = "w\<lparr>ncalloc := ncalloc w + 1, nread := nread w + 1\<rparr>"
  let ?d = "words_of pf (take (4 * nwords) bs)"
  have len: "length ?d = nwords" using bs(2) by (simp add: length_words_of)
  have "take 4 (take (4 * nwords) bs) = take 4 bs"
    using assms(1) by (simp add: min_def)
  then have d0: "?d ! 0 = mem_word pf (take 4 bs)"
    using words_of_hd [of "take (4 * nwords) bs" pf] bs(2) assms(1) by simp
  have "\<forall>k. \<exists>bs. urandom ?w2 k = RdBytes bs \<and> 4 \<le> length bs
            \<and> accept pf (mem_word pf (take 4 bs)) = 0"
  proof
    fix k
    from assms(3) obtain b where "urandom w k = RdBytes b" "4 * nwords \<le> length b"
      "accept pf (mem_word pf (take 4 b)) = 0" by blast
    with assms(1) show "\<exists>bs. urandom ?w2 k = RdBytes bs \<and> 4 \<le> length bs
            \<and> accept pf (mem_word pf (take 4 bs)) = 0" by auto
  qed
  with len assms(1) d0 bs(3) have "retry pf 0 1 ?d ?w2 = None"
    by (intro retry_diverges) simp_all
  then have "fix_words pf nwords 0 1 ?d ?w2 = None"
    using assms(1) by (simp add: fix_words.simps [of pf nwords 0])
  with assms(2) bs(1,2) show ?thesis
    by (simp add: do_block_cases read_falls_short_def)
qed

section \<open>Properties of \<^verbatim>\<open>main\<close>\<close>

lemma pool_constants:
  "INPUT_POOL_WORDS = 128" "OUTPUT_POOL_WORDS = 32" "INPUT_POOL_SHIFT = 12"
  "TOTAL_POOL_WORDS = 192" "ARRAY_WORDS = 32"
  by (simp_all add: INPUT_POOL_WORDS_def OUTPUT_POOL_WORDS_def INPUT_POOL_SHIFT_def
      OUTPUT_POOL_SHIFT_def TOTAL_POOL_WORDS_def ARRAY_WORDS_def ARRAY_ROWS_def)

lemma fmt_d_values: "fmt_d 128 = ''128''" "fmt_d 32 = ''32''" "fmt_d 12 = ''12''"
  by (simp_all add: fmt_d_def radix_digits.simps digit_char_def hex_digits_def)

lemma preamble_text:
  "preamble w = w\<lparr>stdout := stdout w @
     ''/* File generated by gen_random_init.c */\<newline>\<newline>#define INPUT_POOL_WORDS 128\<newline>#define OUTPUT_POOL_WORDS 32\<newline>#define INPUT_POOL_SHIFT 12\<newline>\<newline>''\<rparr>"
  by (simp add: preamble_def Let_def printf_out_def pool_constants fmt_d_values)

lemma read_falls_short_mono: "read_falls_short n r \<Longrightarrow> n \<le> m \<Longrightarrow> read_falls_short m r"
  by (auto simp: read_falls_short_def split: rd.splits)

text \<open>How \<^verbatim>\<open>gen_blocks\<close> can end.\<close>

lemma gen_blocks_Some:
  assumes "gen_blocks pf gcm w = Some (c, w')"
  shows "(\<exists>rest. stdout w' = stdout w @ rest)
     \<and> (c = 0 \<and> stderr w' = stderr w
        \<or> c = 1 \<and> (stderr w' = stderr w @ ''gen_random_init: calloc() failed, cannot continue\<newline>''
                 \<or> stderr w' = stderr w @ ''gen_random_int: read() failed, cannot contiue\<newline>''))
     \<and> ((\<forall>k. calloc_ok w k) \<and> (\<forall>k. \<not> read_falls_short (4 * nat TOTAL_POOL_WORDS) (urandom w k))
          \<longrightarrow> c = 0)"
proof (cases "do_block pf (nat TOTAL_POOL_WORDS) ''pools'' w")
  case None
  with assms show ?thesis by (simp add: gen_blocks_def)
next
  case (Some r)
  show ?thesis
  proof (cases r)
    case (Inl e)
    with Some assms have e: "e = (c, w')" by (simp add: gen_blocks_def)
    from do_block_Inl [OF Some [unfolded Inl e]] show ?thesis by auto
  next
    case (Inr w1)
    note b1 = do_block_Inr_world [OF Some [unfolded Inr]]
    show ?thesis
    proof (cases gcm)
      case False
      with Some Inr assms have "c = 0" "w' = w1" by (simp_all add: gen_blocks_def)
      with b1 show ?thesis by auto
    next
      case True
      let ?w2 = "printf_out (''#define ARRAY_WORDS '' @ fmt_d ARRAY_WORDS @ ''\<newline>\<newline>'') w1"
      have w2: "stdout ?w2 = stdout w1 @ ''#define ARRAY_WORDS '' @ fmt_d ARRAY_WORDS @ ''\<newline>\<newline>''"
        "stderr ?w2 = stderr w1" "urandom ?w2 = urandom w1" "calloc_ok ?w2 = calloc_ok w1"
        by (simp_all add: printf_out_def)
      show ?thesis
      proof (cases "do_block pf (nat (ARRAY_WORDS + 8)) ''constants'' ?w2")
        case None
        with Some Inr True assms show ?thesis by (simp add: gen_blocks_def Let_def)
      next
        case s2: (Some r2)
        show ?thesis
        proof (cases r2)
          case i2: (Inl e)
          with Some Inr True s2 assms have e: "e = (c, w')" by (simp add: gen_blocks_def Let_def)
          note l = do_block_Inl [OF s2 [unfolded i2 e]]
          have "read_falls_short (4 * nat TOTAL_POOL_WORDS) (urandom ?w2 (nread ?w2))"
            if "read_falls_short (4 * nat (ARRAY_WORDS + 8)) (urandom ?w2 (nread ?w2))"
            using that by (rule read_falls_short_mono) (simp add: pool_constants)
          with l b1 w2 show ?thesis by auto
        next
          case r2: (Inr w3)
          with Some Inr True s2 assms have c: "c = 0"
            "w' = printf_out ''static u32 *counter = constants + ARRAY_WORDS ;\<newline>'' w3"
            by (simp_all add: gen_blocks_def Let_def)
          note b2 = do_block_Inr_world [OF s2 [unfolded r2]]
          from c(2) have "stdout w' = stdout w3 @ ''static u32 *counter = constants + ARRAY_WORDS ;\<newline>''"
            "stderr w' = stderr w3" by (simp_all add: printf_out_def)
          with b1 b2 w2 c(1) show ?thesis by auto
        qed
      qed
    qed
  qed
qed

lemma gen_blocks_terminates:
  assumes "\<forall>n. \<exists>k \<ge> n. supplies_ok pf (urandom w k)"
  shows "gen_blocks pf gcm w \<noteq> None"
proof -
  from do_block_terminates [OF assms] obtain r where
    r: "do_block pf (nat TOTAL_POOL_WORDS) ''pools'' w = Some r" by blast
  show ?thesis
  proof (cases r)
    case (Inl e)
    with r show ?thesis by (simp add: gen_blocks_def)
  next
    case (Inr w1)
    from do_block_Inr_world [OF r [unfolded Inr]] have u: "urandom w1 = urandom w" by blast
    let ?w2 = "printf_out (''#define ARRAY_WORDS '' @ fmt_d ARRAY_WORDS @ ''\<newline>\<newline>'') w1"
    have "urandom ?w2 = urandom w" using u by (simp add: printf_out_def)
    with assms have "\<forall>n. \<exists>k \<ge> n. supplies_ok pf (urandom ?w2 k)" by simp
    from do_block_terminates [OF this] obtain r2 where
      "do_block pf (nat (ARRAY_WORDS + 8)) ''constants'' ?w2 = Some r2" by blast
    with r Inr show ?thesis
      by (cases r2) (simp_all add: gen_blocks_def Let_def)
  qed
qed

lemma do_block_succeeds:
  assumes "calloc_ok w (ncalloc w)"
    and "\<not> read_falls_short (4 * nwords) (urandom w (nread w))"
    and "\<forall>n. \<exists>k \<ge> n. supplies_ok pf (urandom w k)"
  shows "\<exists>w'. do_block pf nwords name w = Some (Inr w')"
proof -
  from do_block_terminates [OF assms(3)] obtain r where
    r: "do_block pf nwords name w = Some r" by blast
  show ?thesis
  proof (cases r)
    case (Inl e)
    obtain c w' where "e = (c, w')" by (cases e)
    with r Inl do_block_Inl [of pf nwords name w c w'] assms(1,2) show ?thesis by auto
  next
    case (Inr w')
    with r show ?thesis by simp
  qed
qed

text \<open>The environment of the second block, when the first was printed.\<close>

lemma second_block_world:
  assumes "do_block pf n name (preamble w) = Some (Inr w1)"
  shows "stderr (printf_out s w1) = stderr w" "urandom (printf_out s w1) = urandom w"
    "calloc_ok (printf_out s w1) = calloc_ok w" "ncalloc (printf_out s w1) = ncalloc w + 1"
    "nread (printf_out s w1) = nread w1" "nread w < nread w1"
    "stderr w1 = stderr w" "urandom w1 = urandom w" "calloc_ok w1 = calloc_ok w"
    "ncalloc w1 = ncalloc w + 1"
  using do_block_Inr_world [OF assms] by (auto simp: printf_out_def preamble_text)

subsection \<open>The concrete environments\<close>

lemma replicate_4: "replicate 4 x = [x, x, x, x]"
proof -
  have "(4::nat) = Suc (Suc (Suc (Suc 0)))" by simp
  then show ?thesis by (simp only: replicate.simps)
qed

lemma pool_world_supplies: "supplies_ok pf (urandom pool_world k)"
proof -
  have "mem_word pf [0x5A, 0x5A, 0x5A, 0x5A] = 0x5A5A5A5A"
    by (simp add: mem_word_def le_word_def)
  moreover have "popcount 0x5A5A5A5A = 16" by code_simp
  moreover have "word_bytes 0x5A5A5A5A = [0x5A, 0x5A, 0x5A, 0x5A]"
    by (simp add: word_bytes_def)
  ultimately show ?thesis
    by (simp add: supplies_ok_def pool_world_def accept_char replicate_4)
qed

lemma accept_zero_word: "accept pf (mem_word pf [0, 0, 0, 0]) = 0"
proof -
  have "mem_word pf [0, 0, 0, 0] = 0"
    by (simp add: mem_word_def le_word_def)
  moreover have "popcount 0 = 0" by code_simp
  ultimately show ?thesis by (simp add: accept_char)
qed

lemma stuck_world_diverges: "0 < n \<Longrightarrow> do_block pf n name (stuck_world n) = None"
proof (rule do_block_diverges)
  assume n: "0 < n"
  then show "0 < n" .
  show "calloc_ok (stuck_world n) (ncalloc (stuck_world n))"
    by (simp add: stuck_world_def)
  have "take 4 (replicate (4 * n) (0::byte)) = [0, 0, 0, 0]"
    using n by (simp add: min_def replicate_4)
  then show "\<forall>k. \<exists>bs. urandom (stuck_world n) k = RdBytes bs \<and> 4 * n \<le> length bs
       \<and> accept pf (mem_word pf (take 4 bs)) = 0"
    by (simp add: stuck_world_def accept_zero_word)
qed

lemma demo_world_supplies: "supplies_ok demo_platform (urandom demo_world k)"
proof -
  have "mem_word demo_platform [0x0F, 0x0F, 0x0F, 0x0F] = 0x0F0F0F0F"
    "mem_word demo_platform [0x12, 0x34, 0x56, 0x78] = 0x78563412"
    by (simp_all add: mem_word_def le_word_def demo_platform_def)
  moreover have "accept demo_platform 0x0F0F0F0F = 1" "accept demo_platform 0x78563412 = 1"
    by code_simp+
  ultimately show ?thesis
    by (simp add: supplies_ok_def demo_world_def)
qed

lemma main_terminates:
  assumes "\<forall>n. \<exists>k \<ge> n. supplies_ok pf (urandom w k)"
  shows "main pf gcm w \<noteq> None"
proof (cases "open_result w = - 1")
  case True
  then show ?thesis by (simp add: main_def)
next
  case False
  have "urandom (preamble w) = urandom w" by (simp add: preamble_text)
  with assms have "\<forall>n. \<exists>k \<ge> n. supplies_ok pf (urandom (preamble w) k)" by simp
  from gen_blocks_terminates [OF this] False show ?thesis
    by (simp add: main_def)
qed

section \<open>The claims about \<^verbatim>\<open>do_block\<close>\<close>

text \<open>A run of \<^verbatim>\<open>do_block\<close> on the first concrete environment, evaluated.\<close>

lemma demo_block_runs:
  "map_option (map_sum fst stdout) (do_block demo_platform 2 ''pools'' demo_world)
   = Some (Inr ''static u32 pools[] = {\<newline>0x0f0f0f0f, 0x78563412 } ;\<newline>\<newline>'')"
  by code_simp

text \<open>
  Claim C2.  When a run of \<^verbatim>\<open>do_block(nwords, name)\<close> returns, what it has added to
  standard output is the array declaration whose values are the \<open>nwords\<close> words of a
  buffer, in order, each printed by \<^verbatim>\<open>0x%08x\<close> with digits that denote the word, and
  \<^verbatim>\<open>accept\<close> maps every word of that buffer to 1, whether the word was read first or
  read again.  This holds for every returning run, in particular for those in which
  every \<^verbatim>\<open>read\<close> succeeds.
\<close>

theorem do_block_prints_accepted:
  assumes "do_block pf nwords name w = Some (Inr w')"
  shows "\<exists>data. length data = nwords \<and> (\<forall>u \<in> set data. accept pf u = 1)
     \<and> stdout w' = stdout w @ ''static u32 '' @ name @ ''[] = {\<newline>''
          @ emit 0 (map (\<lambda>u. ''0x'' @ fmt_08x u) data) @ ''\<newline>''
     \<and> (0 < nwords \<longrightarrow>
          stdout w' = stdout w @ array_literal name (map (\<lambda>u. ''0x'' @ fmt_08x u) data))
     \<and> (\<forall>u \<in> set data. hex_value (fmt_08x u) = uint u)
     \<and> (\<exists>w3. w' = printf_out ''\<newline>'' (print_words nwords data 0
              (printf_out (''static u32 '' @ name @ ''[] = {\<newline>'') w3))
          \<and> stdout w3 = stdout w)"
proof -
  from do_block_Inr [OF assms] obtain data w3 where
    d: "length data = nwords" "\<forall>j < nwords. accept pf (data ! j) = 1"
    and w': "w' = printf_out ''\<newline>'' (print_words nwords data 0
              (printf_out (''static u32 '' @ name @ ''[] = {\<newline>'') w3))"
    and w3: "w3 = w\<lparr>ncalloc := ncalloc w + 1, nread := nread w3\<rparr>"
    by blast
  define vals where "vals = map (\<lambda>u. ''0x'' @ fmt_08x u) data"
  from d have acc: "\<forall>u \<in> set data. accept pf u = 1"
    by (auto simp: in_set_conv_nth)
  have s3: "stdout w3 = stdout w"
    by (subst w3) simp
  have out: "stdout w' = stdout w @ ''static u32 '' @ name @ ''[] = {\<newline>''
          @ emit 0 vals @ ''\<newline>''"
    unfolding w' print_words_emit [OF d(1)] vals_def by (simp add: printf_out_def s3)
  have lit: "stdout w' = stdout w @ array_literal name vals" if "0 < nwords"
  proof -
    from d(1) that have ne: "vals \<noteq> []" by (auto simp: vals_def)
    have "emit 0 vals =
        join_with '',\<newline>'' (map (join_with '', '') (chunks 8 vals)) @ '' } ;\<newline>''"
      using emit_chunks [OF ne, of 0] chunks_nonempty [OF ne] by simp
    with out show ?thesis by (simp add: array_literal_def)
  qed
  have "\<forall>u \<in> set data. hex_value (fmt_08x u) = uint u"
    by (simp add: hex_value_fmt_08x)
  with d(1) acc out lit w' s3 show ?thesis
    unfolding vals_def by blast
qed

theorem do_block_prints_accepted_witness:
  "\<exists>w' data. do_block demo_platform 2 ''pools'' demo_world = Some (Inr w')
     \<and> stdout w' = ''static u32 pools[] = {\<newline>0x0f0f0f0f, 0x78563412 } ;\<newline>\<newline>''
     \<and> length data = 2 \<and> (\<forall>u \<in> set data. accept demo_platform u = 1)
     \<and> stdout w' = stdout demo_world @ ''static u32 '' @ ''pools'' @ ''[] = {\<newline>''
          @ emit 0 (map (\<lambda>u. ''0x'' @ fmt_08x u) data) @ ''\<newline>''"
proof -
  from demo_block_runs obtain w' where
    w': "do_block demo_platform 2 ''pools'' demo_world = Some (Inr w')"
      "stdout w' = ''static u32 pools[] = {\<newline>0x0f0f0f0f, 0x78563412 } ;\<newline>\<newline>''"
    by (cases "do_block demo_platform 2 ''pools'' demo_world" rule: option.exhaust)
       (auto simp: map_sum_def split: sum.splits)
  from do_block_prints_accepted [OF w'(1)] obtain data where
    "length data = 2" "\<forall>u \<in> set data. accept demo_platform u = 1"
    "stdout w' = stdout demo_world @ ''static u32 '' @ ''pools'' @ ''[] = {\<newline>''
          @ emit 0 (map (\<lambda>u. ''0x'' @ fmt_08x u) data) @ ''\<newline>''"
    by blast
  with w' show ?thesis by blast
qed

text \<open>
  Claim C7.  For \<open>nwords \<ge> 1\<close>, a run of \<^verbatim>\<open>do_block(nwords, name)\<close> that returns has
  printed exactly \<open>nwords\<close> values, each \<^verbatim>\<open>0x\<close> followed by exactly eight hexadecimal
  digits, as the array literal of the specification: the values separated by commas,
  eight on every line but the last, which has between one and eight, after
  \<^verbatim>\<open>name[] = {\<close> and before a closing brace and a semicolon.
\<close>

theorem do_block_array_literal:
  assumes "0 < nwords" and "do_block pf nwords name w = Some (Inr w')"
  shows "\<exists>data. length data = nwords
     \<and> (let vals = map (\<lambda>u. ''0x'' @ fmt_08x u) data in
          stdout w' = stdout w @ array_literal name vals
          \<and> (\<forall>v \<in> set vals. is_hex8_literal v)
          \<and> concat (chunks 8 vals) = vals
          \<and> (\<forall>r \<in> set (butlast (chunks 8 vals)). length r = 8)
          \<and> 0 < length (last (chunks 8 vals)) \<and> length (last (chunks 8 vals)) \<le> 8)"
proof -
  from do_block_Inr_world [OF assms(2)] obtain data where
    d: "length data = nwords"
    and out: "stdout w' = stdout w @ ''static u32 '' @ name @ ''[] = {\<newline>''
          @ emit 0 (map (\<lambda>u. ''0x'' @ fmt_08x u) data) @ ''\<newline>''"
    by blast
  define vals where "vals = map (\<lambda>u. ''0x'' @ fmt_08x u) data"
  from d assms(1) have ne: "vals \<noteq> []" by (auto simp: vals_def)
  have "emit 0 vals =
      join_with '',\<newline>'' (map (join_with '', '') (chunks 8 vals)) @ '' } ;\<newline>''"
    using emit_chunks [OF ne, of 0] chunks_nonempty [OF ne] by simp
  with out have "stdout w' = stdout w @ array_literal name vals"
    by (simp add: array_literal_def vals_def)
  moreover have "\<forall>v \<in> set vals. is_hex8_literal v"
    unfolding vals_def using hex8_literal by (simp del: append.simps)
  ultimately show ?thesis
    using d chunks_rows [of vals] ne unfolding Let_def vals_def by blast
qed

theorem do_block_array_literal_witness:
  "\<exists>w' data. do_block demo_platform 2 ''pools'' demo_world = Some (Inr w')
     \<and> stdout w' = ''static u32 pools[] = {\<newline>0x0f0f0f0f, 0x78563412 } ;\<newline>\<newline>''
     \<and> length data = 2
     \<and> stdout w' = stdout demo_world @ array_literal ''pools'' (map (\<lambda>u. ''0x'' @ fmt_08x u) data)"
proof -
  from demo_block_runs obtain w' where
    w': "do_block demo_platform 2 ''pools'' demo_world = Some (Inr w')"
      "stdout w' = ''static u32 pools[] = {\<newline>0x0f0f0f0f, 0x78563412 } ;\<newline>\<newline>''"
    by (cases "do_block demo_platform 2 ''pools'' demo_world" rule: option.exhaust)
       (auto simp: map_sum_def split: sum.splits)
  from do_block_array_literal [OF _ w'(1)] w' show ?thesis
    unfolding Let_def by fastforce
qed

text \<open>
  Claim C6.  If the bulk \<^verbatim>\<open>read\<close> of \<^verbatim>\<open>do_block\<close> returns fewer than \<open>4 * nwords\<close>
  bytes (or fails), the process ends at once with status 1: only the diagnostic is
  printed, to the error stream; standard output is left as it was, and \<^verbatim>\<open>read\<close> has
  been called once.
\<close>

theorem short_read_is_fatal:
  assumes "calloc_ok w (ncalloc w)"
    and "read_falls_short (4 * nwords) (urandom w (nread w))"
  shows "do_block pf nwords name w =
      Some (Inl (1, w\<lparr>ncalloc := ncalloc w + 1, nread := nread w + 1,
         stderr := stderr w @ ''gen_random_int: read() failed, cannot contiue\<newline>''\<rparr>))
    \<and> fst (fst (sys_read (4 * nwords) (snd (sys_calloc w)))) \<noteq> int (4 * nwords)"
proof -
  have "fst (fst (sys_read (4 * nwords) (snd (sys_calloc w)))) \<noteq> int (4 * nwords)"
    using assms(2)
    by (auto simp: sys_read_def sys_calloc_def read_falls_short_def split: rd.splits)
  with assms show ?thesis
    by (simp add: do_block_cases)
qed

theorem short_read_is_fatal_witness:
  "do_block demo_platform 3 ''pools'' demo_world =
      Some (Inl (1, demo_world\<lparr>ncalloc := 1, nread := 1,
         stderr := ''gen_random_int: read() failed, cannot contiue\<newline>''\<rparr>))"
  using short_read_is_fatal [of demo_world 3 demo_platform "''pools''"]
  by (simp add: demo_world_def read_falls_short_def)

text \<open>
  Claim C4.  The retry loop of \<^verbatim>\<open>do_block\<close> terminates whenever the device, from the
  read the loop has reached, eventually supplies a 4-byte value that passes the filter;
  so does the loop over all word positions, and \<^verbatim>\<open>do_block\<close> itself, when the device
  does so again and again.  It is not guaranteed to terminate: on a device that supplies
  only values failing the filter, such as zero bytes for ever, \<^verbatim>\<open>do_block\<close> never
  returns.
\<close>

theorem retry_loop_termination:
  "(i < length data \<and> (\<exists>k \<ge> nread w. supplies_ok pf (urandom w k))
      \<longrightarrow> retry pf i x data w \<noteq> None)
   \<and> (length data = nwords \<and> (\<forall>n. \<exists>k \<ge> n. supplies_ok pf (urandom w k))
      \<longrightarrow> fix_words pf nwords i x data w \<noteq> None)
   \<and> ((\<forall>n. \<exists>k \<ge> n. supplies_ok pf (urandom w k)) \<longrightarrow> do_block pf nwords name w \<noteq> None)
   \<and> (0 < nwords \<and> calloc_ok w (ncalloc w)
       \<and> (\<forall>k. \<exists>bs. urandom w k = RdBytes bs \<and> 4 * nwords \<le> length bs
              \<and> accept pf (mem_word pf (take 4 bs)) = 0)
      \<longrightarrow> do_block pf nwords name w = None)
   \<and> (0 < nwords \<longrightarrow> do_block pf nwords name (stuck_world nwords) = None)"
proof -
  have a: "retry pf i x data w \<noteq> None"
    if "i < length data" "\<exists>k \<ge> nread w. supplies_ok pf (urandom w k)"
    using that retry_terminates by blast
  have b: "fix_words pf nwords i x data w \<noteq> None"
    if "length data = nwords" "\<forall>n. \<exists>k \<ge> n. supplies_ok pf (urandom w k)"
    using that by (rule fix_words_terminates)
  have c: "do_block pf nwords name w \<noteq> None"
    if "\<forall>n. \<exists>k \<ge> n. supplies_ok pf (urandom w k)"
    using that by (rule do_block_terminates)
  have d: "do_block pf nwords name w = None"
    if "0 < nwords" "calloc_ok w (ncalloc w)"
      "\<forall>k. \<exists>bs. urandom w k = RdBytes bs \<and> 4 * nwords \<le> length bs
              \<and> accept pf (mem_word pf (take 4 bs)) = 0"
    using that by (rule do_block_diverges)
  have e: "do_block pf nwords name (stuck_world nwords) = None" if "0 < nwords"
    using that by (rule stuck_world_diverges)
  from a b c d e show ?thesis by blast
qed

theorem retry_loop_termination_witness:
  "retry demo_platform 1 1 [0x0F0F0F0F, 0] (demo_world\<lparr>nread := 1\<rparr>) \<noteq> None
   \<and> do_block demo_platform 2 ''pools'' demo_world \<noteq> None
   \<and> do_block demo_platform 2 ''pools'' (stuck_world 2) = None"
proof -
  have s: "\<forall>n. \<exists>k \<ge> n. supplies_ok demo_platform (urandom demo_world k)"
    using demo_world_supplies by blast
  have s': "\<exists>k \<ge> nread (demo_world\<lparr>nread := 1\<rparr>).
      supplies_ok demo_platform (urandom (demo_world\<lparr>nread := 1\<rparr>) k)"
    using demo_world_supplies [of 1] by (intro exI [of _ 1]) simp
  have l: "(1::nat) < length [0x0F0F0F0F, 0 :: u32]" by simp
  note t1 = retry_loop_termination
      [where i = 1 and data = "[0x0F0F0F0F, 0]" and w = "demo_world\<lparr>nread := 1\<rparr>"
         and pf = demo_platform and x = 1 and nwords = 2 and name = "''pools''"]
  note t2 = retry_loop_termination
      [where i = 0 and data = "[]" and w = demo_world
         and pf = demo_platform and x = 1 and nwords = 2 and name = "''pools''"]
  have "retry demo_platform 1 1 [0x0F0F0F0F, 0] (demo_world\<lparr>nread := 1\<rparr>) \<noteq> None"
    by (rule t1 [THEN conjunct1, THEN mp, OF conjI [OF l s']])
  moreover have "do_block demo_platform 2 ''pools'' demo_world \<noteq> None"
    by (rule t2 [THEN conjunct2, THEN conjunct2, THEN conjunct1, THEN mp, OF s])
  moreover have "do_block demo_platform 2 ''pools'' (stuck_world 2) = None"
    by (rule t2 [THEN conjunct2, THEN conjunct2, THEN conjunct2, THEN conjunct2, THEN mp]) simp
  ultimately show ?thesis by blast
qed

section \<open>The claims about \<^verbatim>\<open>main\<close>\<close>

text \<open>
  Claim C5.  The process exits with status 1 when \<^verbatim>\<open>/dev/urandom\<close> cannot be opened,
  when \<^verbatim>\<open>calloc\<close> fails and when the bulk \<^verbatim>\<open>read\<close> falls short, in the first block
  and, under \<^verbatim>\<open>CONFIG_RANDOM_GCM\<close>, in the second, each time after printing the
  diagnostic of that failure to the error stream; the three diagnostics differ.  It
  exits with status 0 when the blocks are printed: it does exit, with status 0 and
  nothing on the error stream, when no call fails and the device supplies acceptable
  words again and again.  Every run that ends has status 0 and an untouched error
  stream, or status 1 and one of the three diagnostics.
\<close>

theorem main_exit_status:
  "(open_result w = - 1 \<longrightarrow>
      main pf gcm w =
        Some (1, w\<lparr>stderr := stderr w @ ''gen_random_init: no /dev/urandom, cannot continue\<newline>''\<rparr>))
   \<and> (open_result w \<noteq> - 1 \<and> \<not> calloc_ok w (ncalloc w) \<longrightarrow>
        (\<exists>w'. main pf gcm w = Some (1, w')
           \<and> stderr w' = stderr w @ ''gen_random_init: calloc() failed, cannot continue\<newline>''))
   \<and> (open_result w \<noteq> - 1 \<and> calloc_ok w (ncalloc w)
        \<and> read_falls_short (4 * nat TOTAL_POOL_WORDS) (urandom w (nread w)) \<longrightarrow>
        (\<exists>w'. main pf gcm w = Some (1, w')
           \<and> stderr w' = stderr w @ ''gen_random_int: read() failed, cannot contiue\<newline>''))
   \<and> (open_result w \<noteq> - 1 \<and> gcm
        \<and> do_block pf (nat TOTAL_POOL_WORDS) ''pools'' (preamble w) = Some (Inr w1)
        \<and> \<not> calloc_ok w1 (ncalloc w1) \<longrightarrow>
        (\<exists>w'. main pf gcm w = Some (1, w')
           \<and> stderr w' = stderr w @ ''gen_random_init: calloc() failed, cannot continue\<newline>''))
   \<and> (open_result w \<noteq> - 1 \<and> gcm
        \<and> do_block pf (nat TOTAL_POOL_WORDS) ''pools'' (preamble w) = Some (Inr w1)
        \<and> calloc_ok w1 (ncalloc w1)
        \<and> read_falls_short (4 * nat (ARRAY_WORDS + 8)) (urandom w1 (nread w1)) \<longrightarrow>
        (\<exists>w'. main pf gcm w = Some (1, w')
           \<and> stderr w' = stderr w @ ''gen_random_int: read() failed, cannot contiue\<newline>''))
   \<and> (open_result w \<noteq> - 1 \<and> \<not> gcm
        \<and> do_block pf (nat TOTAL_POOL_WORDS) ''pools'' (preamble w) = Some (Inr w1) \<longrightarrow>
        main pf gcm w = Some (0, w1))
   \<and> (open_result w \<noteq> - 1 \<and> gcm
        \<and> do_block pf (nat TOTAL_POOL_WORDS) ''pools'' (preamble w) = Some (Inr w1)
        \<and> do_block pf (nat (ARRAY_WORDS + 8)) ''constants''
             (printf_out (''#define ARRAY_WORDS '' @ fmt_d ARRAY_WORDS @ ''\<newline>\<newline>'') w1) = Some (Inr w3)
        \<longrightarrow>
        main pf gcm w =
          Some (0, printf_out ''static u32 *counter = constants + ARRAY_WORDS ;\<newline>'' w3))
   \<and> (open_result w \<noteq> - 1 \<and> calloc_ok w (ncalloc w)
        \<and> \<not> read_falls_short (4 * nat TOTAL_POOL_WORDS) (urandom w (nread w))
        \<and> (\<forall>n. \<exists>k \<ge> n. supplies_ok pf (urandom w k))
        \<and> (gcm \<longrightarrow> calloc_ok w (ncalloc w + 1)
              \<and> (\<forall>k > nread w. \<not> read_falls_short (4 * nat (ARRAY_WORDS + 8)) (urandom w k)))
        \<longrightarrow> (\<exists>w'. main pf gcm w = Some (0, w') \<and> stderr w' = stderr w))
   \<and> (\<forall>c w'. main pf gcm w = Some (c, w') \<longrightarrow>
        (c = 0 \<and> stderr w' = stderr w \<and> open_result w \<noteq> - 1)
        \<or> (c = 1 \<and> (stderr w' = stderr w @ ''gen_random_init: no /dev/urandom, cannot continue\<newline>''
                   \<or> stderr w' = stderr w @ ''gen_random_init: calloc() failed, cannot continue\<newline>''
                   \<or> stderr w' = stderr w @ ''gen_random_int: read() failed, cannot contiue\<newline>'')))
   \<and> (\<forall>c w'. main pf gcm w = Some (c, w') \<and> open_result w \<noteq> - 1 \<and> (\<forall>k. calloc_ok w k)
        \<and> (\<forall>k. \<not> read_falls_short (4 * nat TOTAL_POOL_WORDS) (urandom w k)) \<longrightarrow> c = 0)
   \<and> distinct [''gen_random_init: no /dev/urandom, cannot continue\<newline>'',
                ''gen_random_init: calloc() failed, cannot continue\<newline>'',
                ''gen_random_int: read() failed, cannot contiue\<newline>'']"
proof -
  let ?p = "preamble w"
  let ?b1 = "do_block pf (nat TOTAL_POOL_WORDS) ''pools'' ?p"
  let ?w2 = "\<lambda>w1. printf_out (''#define ARRAY_WORDS '' @ fmt_d ARRAY_WORDS @ ''\<newline>\<newline>'') w1"
  let ?b2 = "\<lambda>w1. do_block pf (nat (ARRAY_WORDS + 8)) ''constants'' (?w2 w1)"
  have p: "stderr ?p = stderr w" "calloc_ok ?p = calloc_ok w" "ncalloc ?p = ncalloc w"
    "urandom ?p = urandom w" "nread ?p = nread w"
    by (simp_all add: preamble_text)
  have a: "main pf gcm w =
        Some (1, w\<lparr>stderr := stderr w @ ''gen_random_init: no /dev/urandom, cannot continue\<newline>''\<rparr>)"
    if "open_result w = - 1"
    using that by (simp add: main_def printf_err_def)
  have b: "\<exists>w'. main pf gcm w = Some (1, w')
           \<and> stderr w' = stderr w @ ''gen_random_init: calloc() failed, cannot continue\<newline>''"
    if "open_result w \<noteq> - 1" "\<not> calloc_ok w (ncalloc w)"
    using that p by (simp add: main_def gen_blocks_def do_block_cases)
  have c: "\<exists>w'. main pf gcm w = Some (1, w')
           \<and> stderr w' = stderr w @ ''gen_random_int: read() failed, cannot contiue\<newline>''"
    if "open_result w \<noteq> - 1" "calloc_ok w (ncalloc w)"
      "read_falls_short (4 * nat TOTAL_POOL_WORDS) (urandom w (nread w))"
    using that p by (simp add: main_def gen_blocks_def do_block_cases)
  have m2: "main pf gcm w =
      (case ?b2 w1 of None \<Rightarrow> None | Some (Inl e) \<Rightarrow> Some e
       | Some (Inr w3) \<Rightarrow>
           Some (0, printf_out ''static u32 *counter = constants + ARRAY_WORDS ;\<newline>'' w3))"
    if "open_result w \<noteq> - 1" gcm "?b1 = Some (Inr w1)" for w1
    using that by (simp add: main_def gen_blocks_def Let_def)
  have d2: "\<exists>w'. main pf gcm w = Some (1, w')
           \<and> stderr w' = stderr w @ ''gen_random_init: calloc() failed, cannot continue\<newline>''"
    if o: "open_result w \<noteq> - 1" gcm and b1: "?b1 = Some (Inr w1)"
      and f: "\<not> calloc_ok w1 (ncalloc w1)"
    for w1
  proof -
    note sw = second_block_world [OF b1]
    from f sw have "\<not> calloc_ok (?w2 w1) (ncalloc (?w2 w1))" by simp
    then have "?b2 w1 = Some (Inl (1, (?w2 w1)\<lparr>ncalloc := ncalloc (?w2 w1) + 1,
           stderr := stderr (?w2 w1) @ ''gen_random_init: calloc() failed, cannot continue\<newline>''\<rparr>))"
      by (simp add: do_block_cases)
    with m2 [OF o b1] sw(1) show ?thesis by simp
  qed
  have e2: "\<exists>w'. main pf gcm w = Some (1, w')
           \<and> stderr w' = stderr w @ ''gen_random_int: read() failed, cannot contiue\<newline>''"
    if o: "open_result w \<noteq> - 1" gcm and b1: "?b1 = Some (Inr w1)"
      and f: "calloc_ok w1 (ncalloc w1)"
        "read_falls_short (4 * nat (ARRAY_WORDS + 8)) (urandom w1 (nread w1))"
    for w1
  proof -
    note sw = second_block_world [OF b1]
    from f sw have "calloc_ok (?w2 w1) (ncalloc (?w2 w1))"
      "read_falls_short (4 * nat (ARRAY_WORDS + 8)) (urandom (?w2 w1) (nread (?w2 w1)))"
      by simp_all
    then have "?b2 w1 = Some (Inl (1, (?w2 w1)\<lparr>ncalloc := ncalloc (?w2 w1) + 1,
           nread := nread (?w2 w1) + 1,
           stderr := stderr (?w2 w1) @ ''gen_random_int: read() failed, cannot contiue\<newline>''\<rparr>))"
      by (simp add: do_block_cases)
    with m2 [OF o b1] sw(1) show ?thesis by simp
  qed
  have f1: "main pf gcm w = Some (0, w1)"
    if "open_result w \<noteq> - 1" "\<not> gcm" "?b1 = Some (Inr w1)" for w1
    using that by (simp add: main_def gen_blocks_def)
  have g2: "main pf gcm w =
          Some (0, printf_out ''static u32 *counter = constants + ARRAY_WORDS ;\<newline>'' w3)"
    if o: "open_result w \<noteq> - 1" gcm and b1: "?b1 = Some (Inr w1)" and b2: "?b2 w1 = Some (Inr w3)"
    for w1 w3
    using m2 [OF o b1] b2 by simp
  have h: "\<exists>w'. main pf gcm w = Some (0, w') \<and> stderr w' = stderr w"
    if o: "open_result w \<noteq> - 1" and c1: "calloc_ok w (ncalloc w)"
      and r1: "\<not> read_falls_short (4 * nat TOTAL_POOL_WORDS) (urandom w (nread w))"
      and s: "\<forall>n. \<exists>k \<ge> n. supplies_ok pf (urandom w k)"
      and g: "gcm \<longrightarrow> calloc_ok w (ncalloc w + 1)
              \<and> (\<forall>k > nread w. \<not> read_falls_short (4 * nat (ARRAY_WORDS + 8)) (urandom w k))"
  proof -
    from c1 r1 s p have "\<exists>v1. ?b1 = Some (Inr v1)"
      by (intro do_block_succeeds) simp_all
    then obtain v1 where b1: "?b1 = Some (Inr v1)" by blast
    note sw = second_block_world [OF b1]
    show ?thesis
    proof (cases gcm)
      case False
      from f1 [OF o False b1] sw(7) show ?thesis by simp
    next
      case True
      with g sw have "calloc_ok (?w2 v1) (ncalloc (?w2 v1))"
        "\<not> read_falls_short (4 * nat (ARRAY_WORDS + 8)) (urandom (?w2 v1) (nread (?w2 v1)))"
        by simp_all
      moreover from s sw(2) have "\<forall>n. \<exists>k \<ge> n. supplies_ok pf (urandom (?w2 v1) k)"
        by simp
      ultimately have "\<exists>v3. ?b2 v1 = Some (Inr v3)"
        by (rule do_block_succeeds)
      then obtain v3 where b2: "?b2 v1 = Some (Inr v3)" by blast
      from do_block_Inr_world [OF b2] have "stderr v3 = stderr (?w2 v1)" by blast
      with sw(1) have "stderr v3 = stderr w" by simp
      with g2 [OF o True b1 b2] show ?thesis by (simp add: printf_out_def)
    qed
  qed
  have j: "(c = 0 \<and> stderr w' = stderr w \<and> open_result w \<noteq> - 1)
        \<or> (c = 1 \<and> (stderr w' = stderr w @ ''gen_random_init: no /dev/urandom, cannot continue\<newline>''
                   \<or> stderr w' = stderr w @ ''gen_random_init: calloc() failed, cannot continue\<newline>''
                   \<or> stderr w' = stderr w @ ''gen_random_int: read() failed, cannot contiue\<newline>''))"
    if m: "main pf gcm w = Some (c, w')" for c w'
  proof (cases "open_result w = - 1")
    case True
    with a m show ?thesis by auto
  next
    case False
    with m have "gen_blocks pf gcm ?p = Some (c, w')" by (simp add: main_def)
    from gen_blocks_Some [OF this] p(1) False show ?thesis by auto
  qed
  have k: "c = 0"
    if m: "main pf gcm w = Some (c, w')" and o: "open_result w \<noteq> - 1"
      and ok: "\<forall>k. calloc_ok w k" "\<forall>k. \<not> read_falls_short (4 * nat TOTAL_POOL_WORDS) (urandom w k)"
    for c w'
  proof -
    from m o have "gen_blocks pf gcm ?p = Some (c, w')" by (simp add: main_def)
    from gen_blocks_Some [OF this] ok p show ?thesis by simp
  qed
  have l: "distinct [''gen_random_init: no /dev/urandom, cannot continue\<newline>'',
                ''gen_random_init: calloc() failed, cannot continue\<newline>'',
                ''gen_random_int: read() failed, cannot contiue\<newline>'']"
    by simp
  show ?thesis
    apply (intro conjI impI allI)
    subgoal by (rule a)
    subgoal using b by blast
    subgoal using c by blast
    subgoal using d2 by blast
    subgoal using e2 by blast
    subgoal using f1 by blast
    subgoal using g2 by blast
    subgoal using h by blast
    subgoal using j by blast
    subgoal using k by blast
    subgoal by (rule l)
    done
qed

theorem main_exit_status_witness:
  "map_option fst (main demo_platform False (pool_world\<lparr>open_result := - 1\<rparr>)) = Some 1
   \<and> map_option fst (main demo_platform False (pool_world\<lparr>calloc_ok := (\<lambda>k. False)\<rparr>)) = Some 1
   \<and> map_option fst (main demo_platform False (pool_world\<lparr>urandom := (\<lambda>k. RdBytes [])\<rparr>)) = Some 1
   \<and> map_option fst (main demo_platform True (pool_world\<lparr>calloc_ok := (\<lambda>k. k = 0)\<rparr>)) = Some 1
   \<and> map_option fst (main demo_platform True
         (pool_world\<lparr>urandom := (\<lambda>k. if k = 0 then RdBytes (replicate 768 0x5A)
                                      else RdBytes [0x5A, 0x5A, 0x5A, 0x5A])\<rparr>)) = Some 1
   \<and> map_option fst (main demo_platform False pool_world) = Some 0
   \<and> map_option fst (main demo_platform True pool_world) = Some 0"
proof -
  let ?pf = demo_platform
  have sup: "\<forall>n. \<exists>k \<ge> n. supplies_ok ?pf (urandom pool_world k)"
    using pool_world_supplies by blast
  have 1: "map_option fst (main ?pf False (pool_world\<lparr>open_result := - 1\<rparr>)) = Some 1"
    using main_exit_status [where w = "pool_world\<lparr>open_result := - 1\<rparr>" and pf = ?pf
        and gcm = False and ?w1.0 = pool_world and ?w3.0 = pool_world, THEN conjunct1]
    by (simp add: pool_world_def)
  have 2: "map_option fst (main ?pf False (pool_world\<lparr>calloc_ok := (\<lambda>k. False)\<rparr>)) = Some 1"
    using main_exit_status [where w = "pool_world\<lparr>calloc_ok := (\<lambda>k. False)\<rparr>" and pf = ?pf
        and gcm = False and ?w1.0 = pool_world and ?w3.0 = pool_world, THEN conjunct2, THEN conjunct1]
    by (auto simp: pool_world_def)
  have 3: "map_option fst (main ?pf False (pool_world\<lparr>urandom := (\<lambda>k. RdBytes [])\<rparr>)) = Some 1"
    using main_exit_status [where w = "pool_world\<lparr>urandom := (\<lambda>k. RdBytes [])\<rparr>" and pf = ?pf
        and gcm = False and ?w1.0 = pool_world and ?w3.0 = pool_world,
        THEN conjunct2, THEN conjunct2, THEN conjunct1]
    by (auto simp: pool_world_def read_falls_short_def pool_constants)
  have 4: "map_option fst (main ?pf True (pool_world\<lparr>calloc_ok := (\<lambda>k. k = 0)\<rparr>)) = Some 1"
  proof -
    let ?w = "pool_world\<lparr>calloc_ok := (\<lambda>k. k = 0)\<rparr>"
    have u: "urandom (preamble ?w) = urandom pool_world" by (simp add: preamble_text)
    have "\<exists>w1. do_block ?pf (nat TOTAL_POOL_WORDS) ''pools'' (preamble ?w) = Some (Inr w1)"
    proof (rule do_block_succeeds)
      show "calloc_ok (preamble ?w) (ncalloc (preamble ?w))"
        by (simp add: preamble_text pool_world_def)
      show "\<not> read_falls_short (4 * nat TOTAL_POOL_WORDS)
          (urandom (preamble ?w) (nread (preamble ?w)))"
        by (simp add: preamble_text pool_world_def read_falls_short_def pool_constants)
      show "\<forall>n. \<exists>k \<ge> n. supplies_ok ?pf (urandom (preamble ?w) k)"
        unfolding u by (rule sup)
    qed
    then obtain w1 where b1: "do_block ?pf (nat TOTAL_POOL_WORDS) ''pools'' (preamble ?w) = Some (Inr w1)"
      by blast
    from second_block_world(9,10) [OF b1] have "\<not> calloc_ok w1 (ncalloc w1)"
      by (simp add: pool_world_def)
    with b1 main_exit_status [where w = ?w and pf = ?pf and gcm = True and ?w1.0 = w1
        and ?w3.0 = pool_world, THEN conjunct2, THEN conjunct2, THEN conjunct2, THEN conjunct1]
    show ?thesis by (auto simp: pool_world_def)
  qed
  have 5: "map_option fst (main ?pf True
         (pool_world\<lparr>urandom := (\<lambda>k. if k = 0 then RdBytes (replicate 768 0x5A)
                                      else RdBytes [0x5A, 0x5A, 0x5A, 0x5A])\<rparr>)) = Some 1"
  proof -
    let ?u = "\<lambda>k::nat. if k = 0 then RdBytes (replicate 768 0x5A)
                                      else RdBytes [0x5A, 0x5A, 0x5A, 0x5A :: byte]"
    let ?w = "pool_world\<lparr>urandom := ?u\<rparr>"
    have u: "urandom (preamble ?w) = ?u" by (simp add: preamble_text)
    have s0: "supplies_ok ?pf (RdBytes (replicate 768 0x5A))"
      using pool_world_supplies [of ?pf 0] by (simp add: pool_world_def)
    have "supplies_ok ?pf (RdBytes [0x5A, 0x5A, 0x5A, 0x5A]) = supplies_ok ?pf (RdBytes (replicate 768 0x5A))"
      by (simp add: supplies_ok_def replicate_4)
    with s0 have s1: "supplies_ok ?pf (RdBytes [0x5A, 0x5A, 0x5A, 0x5A])" by simp
    have "\<exists>w1. do_block ?pf (nat TOTAL_POOL_WORDS) ''pools'' (preamble ?w) = Some (Inr w1)"
    proof (rule do_block_succeeds)
      show "calloc_ok (preamble ?w) (ncalloc (preamble ?w))"
        by (simp add: preamble_text pool_world_def)
      show "\<not> read_falls_short (4 * nat TOTAL_POOL_WORDS)
          (urandom (preamble ?w) (nread (preamble ?w)))"
        by (simp add: preamble_text pool_world_def read_falls_short_def pool_constants)
      show "\<forall>n. \<exists>k \<ge> n. supplies_ok ?pf (urandom (preamble ?w) k)"
        unfolding u using s0 s1 by auto
    qed
    then obtain w1 where b1: "do_block ?pf (nat TOTAL_POOL_WORDS) ''pools'' (preamble ?w) = Some (Inr w1)"
      by blast
    note sw = second_block_world [OF b1]
    from sw(6) have "nread w1 \<noteq> 0" by simp
    with sw(8,9,10) have "calloc_ok w1 (ncalloc w1)"
      "read_falls_short (4 * nat (ARRAY_WORDS + 8)) (urandom w1 (nread w1))"
      by (simp_all add: pool_world_def read_falls_short_def pool_constants)
    with b1 main_exit_status [where w = ?w and pf = ?pf and gcm = True and ?w1.0 = w1
        and ?w3.0 = pool_world,
        THEN conjunct2, THEN conjunct2, THEN conjunct2, THEN conjunct2, THEN conjunct1]
    show ?thesis by (auto simp: pool_world_def)
  qed
  have env: "open_result pool_world \<noteq> - 1" "calloc_ok pool_world (ncalloc pool_world)"
    "\<not> read_falls_short (4 * nat TOTAL_POOL_WORDS) (urandom pool_world (nread pool_world))"
    "calloc_ok pool_world (ncalloc pool_world + 1)"
    "\<forall>k > nread pool_world. \<not> read_falls_short (4 * nat (ARRAY_WORDS + 8)) (urandom pool_world k)"
    by (simp_all add: pool_world_def read_falls_short_def pool_constants)
  have 6: "map_option fst (main ?pf False pool_world) = Some 0"
    using main_exit_status [where w = pool_world and pf = ?pf and gcm = False
        and ?w1.0 = pool_world and ?w3.0 = pool_world,
        THEN conjunct2, THEN conjunct2, THEN conjunct2, THEN conjunct2, THEN conjunct2,
        THEN conjunct2, THEN conjunct2, THEN conjunct1] env sup
    by auto
  have 7: "map_option fst (main ?pf True pool_world) = Some 0"
    using main_exit_status [where w = pool_world and pf = ?pf and gcm = True
        and ?w1.0 = pool_world and ?w3.0 = pool_world,
        THEN conjunct2, THEN conjunct2, THEN conjunct2, THEN conjunct2, THEN conjunct2,
        THEN conjunct2, THEN conjunct2, THEN conjunct1] env sup
    by auto
  from 1 2 3 4 5 6 7 show ?thesis by (intro conjI)
qed

text \<open>
  Claim C10.  After \<^verbatim>\<open>open\<close> succeeded, \<^verbatim>\<open>main\<close> prints the header comment and the
  definitions of \<^verbatim>\<open>INPUT_POOL_WORDS\<close> (128), \<^verbatim>\<open>OUTPUT_POOL_WORDS\<close> (32) and
  \<^verbatim>\<open>INPUT_POOL_SHIFT\<close> (12), the values of the generator's own constants
  \<open>1 << (12 - 5)\<close>, \<open>1 << (10 - 5)\<close> and 12, and only then generates the blocks: the
  output of every run that ends starts with that text.
\<close>

theorem main_preamble:
  assumes "open_result w \<noteq> - 1"
  shows "main pf gcm w = gen_blocks pf gcm (preamble w)
     \<and> preamble w = w\<lparr>stdout := stdout w @
         ''/* File generated by gen_random_init.c */\<newline>\<newline>#define INPUT_POOL_WORDS 128\<newline>#define OUTPUT_POOL_WORDS 32\<newline>#define INPUT_POOL_SHIFT 12\<newline>\<newline>''\<rparr>
     \<and> INPUT_POOL_WORDS = 128 \<and> INPUT_POOL_WORDS = push_bit (12 - 5) 1
     \<and> OUTPUT_POOL_WORDS = 32 \<and> OUTPUT_POOL_WORDS = push_bit (10 - 5) 1
     \<and> INPUT_POOL_SHIFT = 12
     \<and> (\<forall>c w'. main pf gcm w = Some (c, w') \<longrightarrow>
          (\<exists>rest. stdout w' = stdout w @
             ''/* File generated by gen_random_init.c */\<newline>\<newline>#define INPUT_POOL_WORDS 128\<newline>#define OUTPUT_POOL_WORDS 32\<newline>#define INPUT_POOL_SHIFT 12\<newline>\<newline>'' @ rest))"
proof -
  have a: "main pf gcm w = gen_blocks pf gcm (preamble w)"
    using assms by (simp add: main_def)
  have "\<exists>rest. stdout w' = stdout w @
             ''/* File generated by gen_random_init.c */\<newline>\<newline>#define INPUT_POOL_WORDS 128\<newline>#define OUTPUT_POOL_WORDS 32\<newline>#define INPUT_POOL_SHIFT 12\<newline>\<newline>'' @ rest"
    if "main pf gcm w = Some (c, w')" for c w'
  proof -
    from that a have "gen_blocks pf gcm (preamble w) = Some (c, w')" by simp
    from gen_blocks_Some [OF this] obtain rest where "stdout w' = stdout (preamble w) @ rest"
      by blast
    then show ?thesis by (simp add: preamble_text)
  qed
  moreover have "INPUT_POOL_WORDS = push_bit (12 - 5) 1" "OUTPUT_POOL_WORDS = push_bit (10 - 5) 1"
    by (simp_all add: pool_constants)
  ultimately show ?thesis
    using a preamble_text [of w] pool_constants(1-3) by blast
qed

theorem main_preamble_witness:
  "main demo_platform False pool_world = gen_blocks demo_platform False (preamble pool_world)
   \<and> stdout (preamble pool_world) =
       ''/* File generated by gen_random_init.c */\<newline>\<newline>#define INPUT_POOL_WORDS 128\<newline>#define OUTPUT_POOL_WORDS 32\<newline>#define INPUT_POOL_SHIFT 12\<newline>\<newline>''"
proof -
  have "open_result pool_world \<noteq> - 1" by (simp add: pool_world_def)
  from main_preamble [OF this, of demo_platform False] show ?thesis
    by (simp add: pool_world_def)
qed

end
